theory Spec2Isabelle
  imports Main "HOL-Library.Word" "HOL-Library.Multiset"
begin

unbundle bit_operations_syntax

section \<open>The encode half of the codec package (codec/encode.go)\<close>

text \<open>
  A shallow embedding of \<^verbatim>\<open>codec/encode.go\<close>. A panic of the Go code is a value
  \<open>Inl e\<close> of the result type: \<^verbatim>\<open>Encoder.Encode\<close> recovers every panic at its
  boundary (\<^verbatim>\<open>defer panicToErr(&err)\<close>) and returns it as an error.
\<close>

type_synonym byte = "8 word"

datatype error =
    SliceBoundsOutOfRange        \<comment> \<open>runtime panic: slice bounds out of range\<close>
  | IndexOutOfRange              \<comment> \<open>runtime panic: index out of range\<close>
  | NilPointerDereference        \<comment> \<open>runtime panic: nil pointer dereference\<close>
  | ReflectPanic string          \<comment> \<open>a panic raised by package reflect\<close>
  | ExtFnError string            \<comment> \<open>\<^verbatim>\<open>panic(fnerr)\<close>: the error of an extension function\<close>
  | UnsupportedKind string       \<comment> \<open>\<^verbatim>\<open>encErr("Unsupported kind: ...")\<close>\<close>

definition bindE :: "error + 'a \<Rightarrow> ('a \<Rightarrow> error + 'b) \<Rightarrow> error + 'b" where
  "bindE m f = (case m of Inl e \<Rightarrow> Inl e | Inr x \<Rightarrow> f x)"

subsection \<open>bytesEncWriter: the buffer-backed sink\<close>

text \<open>
  The slice \<^verbatim>\<open>z.b\<close> is modelled by its visible window \<open>b\<close> (so \<^verbatim>\<open>len(z.b)\<close> is
  \<open>length (b z)\<close>) and by the rest of its backing array \<open>spare\<close>, the bytes between
  \<^verbatim>\<open>len(z.b)\<close> and \<^verbatim>\<open>cap(z.b)\<close>. The cursor and the sizes are natural numbers
  (Go's \<^verbatim>\<open>int\<close>, without its overflow). \<open>out\<close> is the caller's slot \<^verbatim>\<open>*z.out\<close>.
\<close>

record bytesEncWriter =
  b :: "byte list"
  spare :: "byte list"
  c :: nat
  out :: "byte list"

definition cap :: "bytesEncWriter \<Rightarrow> nat" where
  "cap z = length (b z) + length (spare z)"

text \<open>\<^verbatim>\<open>NewEncoderBytes\<close>: a nil \<^verbatim>\<open>*out\<close> (\<open>None\<close>) is replaced by
  \<^verbatim>\<open>make([]byte, defEncByteBufSize)\<close>; a non-nil one is given by its window and the
  hidden rest of its backing array.\<close>

definition defEncByteBufSize :: nat where
  "defEncByteBufSize = 2 ^ 6"

definition NewEncoderBytes :: "(byte list \<times> byte list) option \<Rightarrow> bytesEncWriter" where
  "NewEncoderBytes outp =
     (case outp of
        None \<Rightarrow> \<lparr>b = replicate defEncByteBufSize 0, spare = [], c = 0, out = []\<rparr>
      | Some (vis, hid) \<Rightarrow> \<lparr>b = vis, spare = hid, c = 0, out = vis\<rparr>)"

text \<open>\<^verbatim>\<open>grow\<close> (encode.go:572). \<^verbatim>\<open>z.b[:oldcursor]\<close> panics when \<open>oldcursor\<close> is
  beyond the capacity; \<^verbatim>\<open>copy\<close> into the fresh, zeroed buffer keeps the first
  \<open>oldcursor\<close> bytes of the backing array.\<close>

definition grow :: "nat \<Rightarrow> bytesEncWriter \<Rightarrow> error + (nat \<times> bytesEncWriter)" where
  "grow n z =
     (let oldcursor = c z;
          z1 = z\<lparr>c := oldcursor + n\<rparr>
      in if c z1 > cap z1 then
           (if oldcursor > cap z1 then Inl SliceBoundsOutOfRange
            else Inr (oldcursor,
                      z1\<lparr>b := take oldcursor (b z1 @ spare z1)
                                 @ replicate (2 * cap z1 + n - oldcursor) 0,
                         spare := []\<rparr>))
         else if c z1 > length (b z1) then
           Inr (oldcursor, z1\<lparr>b := b z1 @ spare z1, spare := []\<rparr>)
         else Inr (oldcursor, z1))"

text \<open>An indexed store \<^verbatim>\<open>z.b[i] = x\<close> and \<^verbatim>\<open>copy(z.b[i:], s)\<close>.\<close>

definition store :: "nat \<Rightarrow> byte \<Rightarrow> bytesEncWriter \<Rightarrow> error + bytesEncWriter" where
  "store i x z = (if i < length (b z) then Inr (z\<lparr>b := (b z)[i := x]\<rparr>) else Inl IndexOutOfRange)"

definition copy_at :: "nat \<Rightarrow> byte list \<Rightarrow> bytesEncWriter \<Rightarrow> error + bytesEncWriter" where
  "copy_at i s z =
     (if i > length (b z) then Inl SliceBoundsOutOfRange
      else let k = min (length (b z) - i) (length s)
           in Inr (z\<lparr>b := take i (b z) @ take k s @ drop (i + k) (b z)\<rparr>))"

fun stores :: "nat \<Rightarrow> byte list \<Rightarrow> bytesEncWriter \<Rightarrow> error + bytesEncWriter" where
  "stores i [] z = Inr z"
| "stores i (x # xs) z = bindE (store i x z) (stores (Suc i) xs)"

definition writeUint16 :: "16 word \<Rightarrow> bytesEncWriter \<Rightarrow> error + bytesEncWriter" where
  "writeUint16 v z = bindE (grow 2 z) (\<lambda>(c0, z1).
     stores c0 [ucast (drop_bit 8 v), ucast v] z1)"

definition writeUint32 :: "32 word \<Rightarrow> bytesEncWriter \<Rightarrow> error + bytesEncWriter" where
  "writeUint32 v z = bindE (grow 4 z) (\<lambda>(c0, z1).
     stores c0 [ucast (drop_bit 24 v), ucast (drop_bit 16 v), ucast (drop_bit 8 v), ucast v] z1)"

definition writeUint64 :: "64 word \<Rightarrow> bytesEncWriter \<Rightarrow> error + bytesEncWriter" where
  "writeUint64 v z = bindE (grow 8 z) (\<lambda>(c0, z1).
     stores c0 [ucast (drop_bit 56 v), ucast (drop_bit 48 v), ucast (drop_bit 40 v),
                ucast (drop_bit 32 v), ucast (drop_bit 24 v), ucast (drop_bit 16 v),
                ucast (drop_bit 8 v), ucast v] z1)"

definition writeb :: "byte list \<Rightarrow> bytesEncWriter \<Rightarrow> error + bytesEncWriter" where
  "writeb s z = bindE (grow (length s) z) (\<lambda>(c0, z1). copy_at c0 s z1)"

definition writestr :: "string \<Rightarrow> bytesEncWriter \<Rightarrow> error + bytesEncWriter" where
  "writestr s z = bindE (grow (length s) z) (\<lambda>(c0, z1). copy_at c0 (map of_char s) z1)"

definition writen1 :: "byte \<Rightarrow> bytesEncWriter \<Rightarrow> error + bytesEncWriter" where
  "writen1 b1 z = bindE (grow 1 z) (\<lambda>(c0, z1). stores c0 [b1] z1)"

definition writen2 :: "byte \<Rightarrow> byte \<Rightarrow> bytesEncWriter \<Rightarrow> error + bytesEncWriter" where
  "writen2 b1 b2 z = bindE (grow 2 z) (\<lambda>(c0, z1). stores c0 [b1, b2] z1)"

definition writen3 :: "byte \<Rightarrow> byte \<Rightarrow> byte \<Rightarrow> bytesEncWriter \<Rightarrow> error + bytesEncWriter" where
  "writen3 b1 b2 b3 z = bindE (grow 3 z) (\<lambda>(c0, z1). stores c0 [b1, b2, b3] z1)"

definition writen4 :: "byte \<Rightarrow> byte \<Rightarrow> byte \<Rightarrow> byte \<Rightarrow> bytesEncWriter \<Rightarrow> error + bytesEncWriter" where
  "writen4 b1 b2 b3 b4 z = bindE (grow 4 z) (\<lambda>(c0, z1). stores c0 [b1, b2, b3, b4] z1)"

text \<open>\<^verbatim>\<open>flush\<close>: \<^verbatim>\<open>*(z.out) = z.b[:z.c]\<close>, a reslice that may reach into the spare
  capacity and panics beyond it.\<close>

definition flush :: "bytesEncWriter \<Rightarrow> error + bytesEncWriter" where
  "flush z = (if c z > cap z then Inl SliceBoundsOutOfRange
              else Inr (z\<lparr>out := take (c z) (b z @ spare z)\<rparr>))"

text \<open>One call of the sink's writing interface, and a session: the calls an encode makes,
  in order, with every state the sink passes through.\<close>

datatype wop =
    WriteUint16 "16 word" | WriteUint32 "32 word" | WriteUint64 "64 word"
  | Writeb "byte list" | Writestr string
  | Writen1 byte | Writen2 byte byte | Writen3 byte byte byte | Writen4 byte byte byte byte

fun apply_wop :: "wop \<Rightarrow> bytesEncWriter \<Rightarrow> error + bytesEncWriter" where
  "apply_wop (WriteUint16 v) z = writeUint16 v z"
| "apply_wop (WriteUint32 v) z = writeUint32 v z"
| "apply_wop (WriteUint64 v) z = writeUint64 v z"
| "apply_wop (Writeb s) z = writeb s z"
| "apply_wop (Writestr s) z = writestr s z"
| "apply_wop (Writen1 b1) z = writen1 b1 z"
| "apply_wop (Writen2 b1 b2) z = writen2 b1 b2 z"
| "apply_wop (Writen3 b1 b2 b3) z = writen3 b1 b2 b3 z"
| "apply_wop (Writen4 b1 b2 b3 b4) z = writen4 b1 b2 b3 b4 z"

fun session :: "bytesEncWriter \<Rightarrow> wop list \<Rightarrow> error + bytesEncWriter list" where
  "session z [] = Inr []"
| "session z (w # ws) =
     bindE (apply_wop w z) (\<lambda>z'. bindE (session z' ws) (\<lambda>zs. Inr (z' # zs)))"

section \<open>Properties of the buffer-backed sink\<close>

lemma bindE_Inr [simp]: "bindE (Inr x) f = f x"
  by (simp add: bindE_def)

lemma bindE_Inl [simp]: "bindE (Inl e) f = Inl e"
  by (simp add: bindE_def)

lemma bindE_eq_Inr: "bindE m f = Inr y \<longleftrightarrow> (\<exists>x. m = Inr x \<and> f x = Inr y)"
  by (cases m) simp_all

lemma take_prefix_of_length: "length p = k \<Longrightarrow> take k (p @ r) = p"
  by simp

lemma grow_realloc_aux:
  assumes "c z \<le> cap z" and "c z + n > cap z"
  shows "\<exists>z'. grow n z = Inr (c z, z')
            \<and> c z' = c z + n
            \<and> cap z' = 2 * cap z + n
            \<and> length (b z') = 2 * cap z + n
            \<and> take (c z) (b z') = take (c z) (b z @ spare z)"
proof -
  let ?old = "b z @ spare z"
  let ?z' = "z\<lparr>c := c z + n, b := take (c z) ?old @ replicate (2 * cap z + n - c z) 0,
               spare := []\<rparr>"
  have len: "length (take (c z) ?old) = c z"
    using assms(1) by (simp add: cap_def)
  have "grow n z = Inr (c z, ?z')"
    using assms by (simp add: grow_def cap_def Let_def)
  moreover have "length (b ?z') = 2 * cap z + n"
    using assms(1) len by (simp add: cap_def)
  moreover have "take (c z) (b ?z') = take (c z) ?old"
  proof -
    have "b ?z' = take (c z) ?old @ replicate (2 * cap z + n - c z) 0"
      by simp
    then show ?thesis
      by (simp only: take_prefix_of_length [OF len])
  qed
  ultimately show ?thesis
    by (intro exI [of _ ?z']) (simp add: cap_def)
qed

text \<open>C4. Growth law: when the new logical length \<open>c + n\<close> exceeds the capacity \<open>C\<close>
  (the cursor itself being within the capacity, as it is in every state the sink reaches),
  \<open>grow n\<close> succeeds, returns the old cursor, moves the cursor to \<open>c + n\<close>, and replaces
  the buffer by one of length and capacity exactly \<open>2 * C + n\<close> whose first \<open>c\<close> bytes are
  the first \<open>c\<close> bytes of the old backing array.\<close>

theorem grow_realloc:
  assumes "c z \<le> cap z" and "c z + n > cap z"
  shows "\<exists>z'. grow n z = Inr (c z, z')
            \<and> c z' = c z + n
            \<and> cap z' = 2 * cap z + n
            \<and> length (b z') = 2 * cap z + n
            \<and> take (c z) (b z') = take (c z) (b z @ spare z)"
  using assms by (rule grow_realloc_aux)

theorem grow_realloc_witness:
  "c (NewEncoderBytes None\<lparr>c := 60\<rparr>) \<le> cap (NewEncoderBytes None\<lparr>c := 60\<rparr>)
   \<and> c (NewEncoderBytes None\<lparr>c := 60\<rparr>) + 8 > cap (NewEncoderBytes None\<lparr>c := 60\<rparr>)
   \<and> (\<exists>z'. grow 8 (NewEncoderBytes None\<lparr>c := 60\<rparr>) = Inr (60, z')
          \<and> c z' = 68 \<and> cap z' = 136 \<and> length (b z') = 136)"
proof -
  let ?z = "NewEncoderBytes None\<lparr>c := 60\<rparr>"
  have h1: "c ?z \<le> cap ?z" and h2: "c ?z + 8 > cap ?z"
    by (simp_all add: NewEncoderBytes_def defEncByteBufSize_def cap_def)
  have v: "c ?z = 60" "cap ?z = 64"
    by (simp_all add: NewEncoderBytes_def defEncByteBufSize_def cap_def)
  from grow_realloc [OF h1 h2] obtain z' where
    "grow 8 ?z = Inr (c ?z, z')" "c z' = c ?z + 8" "cap z' = 2 * cap ?z + 8"
    "length (b z') = 2 * cap ?z + 8"
    by blast
  then have "grow 8 ?z = Inr (60, z') \<and> c z' = 68 \<and> cap z' = 136 \<and> length (b z') = 136"
    unfolding v by simp
  with h1 h2 show ?thesis by blast
qed

subsection \<open>The sink's invariant along a session\<close>

lemma grow_ok:
  assumes "c z \<le> length (b z)"
  shows "\<exists>z'. grow n z = Inr (c z, z') \<and> c z' = c z + n \<and> c z' \<le> length (b z')
            \<and> cap z \<le> cap z'"
proof (cases "c z + n > cap z")
  case True
  from assms have "c z \<le> cap z" by (simp add: cap_def)
  from grow_realloc_aux [OF this True] obtain z' where
    z': "grow n z = Inr (c z, z')" "c z' = c z + n" "cap z' = 2 * cap z + n"
        "length (b z') = 2 * cap z + n"
    by blast
  have "c z' \<le> length (b z')"
    using z'(2,4) \<open>c z \<le> cap z\<close> by simp
  moreover have "cap z \<le> cap z'"
    using z'(3) by simp
  ultimately show ?thesis
    using z'(1,2) by blast
next
  case False
  then show ?thesis
    using assms by (auto simp: grow_def cap_def Let_def)
qed

lemma store_ok:
  assumes "i < length (b z)"
  shows "\<exists>z'. store i x z = Inr z' \<and> c z' = c z \<and> length (b z') = length (b z)
            \<and> spare z' = spare z"
  using assms by (simp add: store_def)

lemma stores_ok:
  "i + length xs \<le> length (b z) \<Longrightarrow>
   \<exists>z'. stores i xs z = Inr z' \<and> c z' = c z \<and> length (b z') = length (b z)
        \<and> spare z' = spare z"
proof (induction xs arbitrary: i z)
  case Nil
  then show ?case by simp
next
  case (Cons x xs)
  then have "i < length (b z)" by simp
  from store_ok [OF this, of x] obtain z1 where
    z1: "store i x z = Inr z1" "c z1 = c z" "length (b z1) = length (b z)" "spare z1 = spare z"
    by blast
  from Cons.prems z1(3) have "Suc i + length xs \<le> length (b z1)" by simp
  from Cons.IH [OF this] z1 show ?case by auto
qed

lemma copy_at_ok:
  assumes "i + length s \<le> length (b z)"
  shows "\<exists>z'. copy_at i s z = Inr z' \<and> c z' = c z \<and> length (b z') = length (b z)
            \<and> spare z' = spare z"
proof -
  from assms have k: "min (length (b z) - i) (length s) = length s" and i: "\<not> i > length (b z)"
    by simp_all
  have "copy_at i s z = Inr (z\<lparr>b := take i (b z) @ take (length s) s @ drop (i + length s) (b z)\<rparr>)"
    using i k by (simp add: copy_at_def Let_def)
  moreover have "length (take i (b z) @ take (length s) s @ drop (i + length s) (b z)) = length (b z)"
    using assms by simp
  ultimately show ?thesis by simp
qed

definition sink_inv :: "bytesEncWriter \<Rightarrow> bool" where
  "sink_inv z \<longleftrightarrow> c z \<le> length (b z)"

lemma grow_then:
  assumes inv: "sink_inv z"
    and body: "\<And>z1. c z + n \<le> length (b z1) \<Longrightarrow>
                 \<exists>z'. f (c z) z1 = Inr z' \<and> c z' = c z1 \<and> length (b z') = length (b z1)
                      \<and> spare z' = spare z1"
  shows "\<exists>z'. bindE (grow n z) (\<lambda>(c0, z1). f c0 z1) = Inr z' \<and> sink_inv z' \<and> cap z \<le> cap z'"
proof -
  from inv have "c z \<le> length (b z)" by (simp add: sink_inv_def)
  from grow_ok [OF this, of n] obtain z1 where
    z1: "grow n z = Inr (c z, z1)" "c z1 = c z + n" "c z1 \<le> length (b z1)" "cap z \<le> cap z1"
    by blast
  from z1(2,3) have "c z + n \<le> length (b z1)" by simp
  from body [OF this] obtain z' where
    z': "f (c z) z1 = Inr z'" "c z' = c z1" "length (b z') = length (b z1)" "spare z' = spare z1"
    by blast
  have "bindE (grow n z) (\<lambda>(c0, z1). f c0 z1) = Inr z'"
    using z1(1) z'(1) by simp
  moreover have "sink_inv z'"
    using z1(3) z'(2,3) by (simp add: sink_inv_def)
  moreover have "cap z \<le> cap z'"
    using z1(4) z'(3,4) by (simp add: cap_def)
  ultimately show ?thesis by blast
qed

lemma apply_wop_ok:
  assumes "sink_inv z"
  shows "\<exists>z'. apply_wop w z = Inr z' \<and> sink_inv z' \<and> cap z \<le> cap z'"
proof (cases w)
  case (WriteUint16 v)
  show ?thesis unfolding WriteUint16 apply_wop.simps writeUint16_def
    by (rule grow_then [OF assms]) (rule stores_ok, simp)
next
  case (WriteUint32 v)
  show ?thesis unfolding WriteUint32 apply_wop.simps writeUint32_def
    by (rule grow_then [OF assms]) (rule stores_ok, simp)
next
  case (WriteUint64 v)
  show ?thesis unfolding WriteUint64 apply_wop.simps writeUint64_def
    by (rule grow_then [OF assms]) (rule stores_ok, simp)
next
  case (Writeb s)
  show ?thesis unfolding Writeb apply_wop.simps writeb_def
    by (rule grow_then [OF assms]) (rule copy_at_ok, simp)
next
  case (Writestr s)
  show ?thesis unfolding Writestr apply_wop.simps writestr_def
    by (rule grow_then [OF assms]) (rule copy_at_ok, simp)
next
  case (Writen1 b1)
  show ?thesis unfolding Writen1 apply_wop.simps writen1_def
    by (rule grow_then [OF assms]) (rule stores_ok, simp)
next
  case (Writen2 b1 b2)
  show ?thesis unfolding Writen2 apply_wop.simps writen2_def
    by (rule grow_then [OF assms]) (rule stores_ok, simp)
next
  case (Writen3 b1 b2 b3)
  show ?thesis unfolding Writen3 apply_wop.simps writen3_def
    by (rule grow_then [OF assms]) (rule stores_ok, simp)
next
  case (Writen4 b1 b2 b3 b4)
  show ?thesis unfolding Writen4 apply_wop.simps writen4_def
    by (rule grow_then [OF assms]) (rule stores_ok, simp)
qed

lemma session_ok:
  "sink_inv z \<Longrightarrow>
   \<exists>zs. session z ws = Inr zs \<and> length zs = length ws
        \<and> list_all (\<lambda>z'. c z' \<le> cap z') zs \<and> sorted (map cap (z # zs))"
proof (induction ws arbitrary: z)
  case Nil
  then show ?case by simp
next
  case (Cons w ws)
  from apply_wop_ok [OF Cons.prems, of w] obtain z1 where
    z1: "apply_wop w z = Inr z1" "sink_inv z1" "cap z \<le> cap z1"
    by blast
  from Cons.IH [OF z1(2)] obtain zs where
    zs: "session z1 ws = Inr zs" "length zs = length ws"
        "list_all (\<lambda>z'. c z' \<le> cap z') zs" "sorted (map cap (z1 # zs))"
    by blast
  have "session z (w # ws) = Inr (z1 # zs)"
    using z1(1) zs(1) by simp
  moreover have "c z1 \<le> cap z1"
    using z1(2) by (simp add: sink_inv_def cap_def)
  moreover have "sorted (map cap (z # z1 # zs))"
    using z1(3) zs(4) by auto
  ultimately show ?case
    using zs(2,3) by simp
qed

lemma NewEncoderBytes_inv: "sink_inv (NewEncoderBytes outp)"
  by (simp add: sink_inv_def NewEncoderBytes_def split: option.splits)

text \<open>C8. In a session that starts from the sink \<^verbatim>\<open>NewEncoderBytes\<close> builds, every
  sequence of writes succeeds; in every state it passes through the cursor is at most the
  capacity, and the capacities, the initial one included, never decrease.\<close>

theorem session_cursor_le_cap_mono:
  "\<exists>zs. session (NewEncoderBytes outp) ws = Inr zs \<and> length zs = length ws
        \<and> list_all (\<lambda>z'. c z' \<le> cap z') zs
        \<and> sorted (map cap (NewEncoderBytes outp # zs))"
  by (rule session_ok [OF NewEncoderBytes_inv])

section \<open>encodeTime: the binary layout of a timestamp\<close>

text \<open>
  What \<^verbatim>\<open>encodeTime\<close> reads from its \<^verbatim>\<open>time.Time\<close>: \<^verbatim>\<open>t.Unix()\<close> (an int64),
  \<^verbatim>\<open>t.Nanosecond()\<close>, whether \<^verbatim>\<open>t.Location()\<close> is the pointer \<^verbatim>\<open>time.UTC\<close>, and the
  offset in seconds east of UTC that \<^verbatim>\<open>t.Zone()\<close> returns.
\<close>

record gotime =
  unix :: "64 word"
  nanosecond :: int
  location_is_UTC :: bool
  zone_offset :: int

definition MinInt32 :: int where
  "MinInt32 = - (2 ^ 31)"

definition MaxInt32 :: int where
  "MaxInt32 = 2 ^ 31 - 1"

text \<open>Modelled from the spec: \<^verbatim>\<open>bigen\<close> is declared outside encode.go; the spec has all
  integer writes big-endian, so \<^verbatim>\<open>bigen.PutUintN(bs[i:], v)\<close> stores the bytes of \<open>v\<close>,
  most significant first, from index \<open>i\<close>. In \<^verbatim>\<open>encodeTime\<close> the stores are always within
  the 14-byte array.\<close>

definition be16 :: "16 word \<Rightarrow> byte list" where
  "be16 v = [ucast (drop_bit 8 v), ucast v]"

definition be32 :: "32 word \<Rightarrow> byte list" where
  "be32 v = [ucast (drop_bit 24 v), ucast (drop_bit 16 v), ucast (drop_bit 8 v), ucast v]"

definition be64 :: "64 word \<Rightarrow> byte list" where
  "be64 v = [ucast (drop_bit 56 v), ucast (drop_bit 48 v), ucast (drop_bit 40 v),
             ucast (drop_bit 32 v), ucast (drop_bit 24 v), ucast (drop_bit 16 v),
             ucast (drop_bit 8 v), ucast v]"

definition put_at :: "byte list \<Rightarrow> nat \<Rightarrow> byte list \<Rightarrow> byte list" where
  "put_at bs i xs = take i bs @ xs @ drop (i + length xs) bs"

definition PutUint16 :: "byte list \<Rightarrow> nat \<Rightarrow> 16 word \<Rightarrow> byte list" where
  "PutUint16 bs i v = put_at bs i (be16 v)"

definition PutUint32 :: "byte list \<Rightarrow> nat \<Rightarrow> 32 word \<Rightarrow> byte list" where
  "PutUint32 bs i v = put_at bs i (be32 v)"

definition PutUint64 :: "byte list \<Rightarrow> nat \<Rightarrow> 64 word \<Rightarrow> byte list" where
  "PutUint64 bs i v = put_at bs i (be64 v)"

text \<open>Go's integer division truncates towards zero.\<close>

definition go_quot :: "int \<Rightarrow> int \<Rightarrow> int" where
  "go_quot a d = sgn a * sgn d * (\<bar>a\<bar> div \<bar>d\<bar>)"

text \<open>\<^verbatim>\<open>encodeTime\<close> (encode.go:596). \<open>bs\<close> is the array \<^verbatim>\<open>var bs [14]byte\<close>, \<open>i\<close> the
  running index; the result is \<^verbatim>\<open>bs[0:i]\<close>.\<close>

definition encodeTime :: "gotime \<Rightarrow> byte list" where
  "encodeTime t =
     (let tsecs = unix t; tnsecs = nanosecond t;
          bs0 = replicate 14 (0 :: byte);
          short = (sint tsecs > MinInt32 \<and> sint tsecs < MaxInt32);
          (bs1, i1) = (if short then (PutUint32 bs0 0 (ucast tsecs), 4)
                       else (PutUint64 bs0 0 tsecs, 8));
          padzero = (\<not> short \<and> tnsecs = 0);
          (bs2, i2) = (if tnsecs \<noteq> 0 then (PutUint32 bs1 i1 (word_of_int tnsecs), i1 + 4)
                       else (bs1, i1));
          (bs3, i3) = (if \<not> location_is_UTC t then
                         (let zoneOffset = go_quot (zone_offset t) 60;
                              isNeg = zoneOffset < 0;
                              zoneOffset' = (if isNeg then - zoneOffset else zoneOffset);
                              z0 = (word_of_int zoneOffset' :: 16 word);
                              z = (if isNeg then z0 OR push_bit 15 1 else z0)
                          in (PutUint16 bs2 i2 z, i2 + 2))
                       else (bs2, i2));
          i4 = (if padzero then i3 + 1 else i3)
      in take i4 bs3)"

definition time_maxint32 :: gotime where
  "time_maxint32 = \<lparr>unix = 2147483647, nanosecond = 0, location_is_UTC = True, zone_offset = 0\<rparr>"

definition time_small :: gotime where
  "time_small = \<lparr>unix = 1351700038, nanosecond = 0, location_is_UTC = True, zone_offset = 0\<rparr>"

definition time_large :: gotime where
  "time_large = \<lparr>unix = 4294967296, nanosecond = 0, location_is_UTC = True, zone_offset = 0\<rparr>"

subsection \<open>Lengths of the encoded timestamp\<close>

lemma length_put_at: "i + length xs \<le> length bs \<Longrightarrow> length (put_at bs i xs) = length bs"
  by (simp add: put_at_def)

lemma take_put_at: "i + length xs \<le> length bs \<Longrightarrow> take (i + length xs) (put_at bs i xs) = take i bs @ xs"
  by (simp add: put_at_def)

lemma take_put_at_before: "k \<le> i \<Longrightarrow> i \<le> length bs \<Longrightarrow> take k (put_at bs i xs) = take k bs"
  by (simp add: put_at_def)

lemma length_be [simp]: "length (be16 v) = 2" "length (be32 w) = 4" "length (be64 x) = 8"
  by (simp_all add: be16_def be32_def be64_def)

lemma length_Put [simp]:
  "i + 2 \<le> length bs \<Longrightarrow> length (PutUint16 bs i v) = length bs"
  "i + 4 \<le> length bs \<Longrightarrow> length (PutUint32 bs i w) = length bs"
  "i + 8 \<le> length bs \<Longrightarrow> length (PutUint64 bs i x) = length bs"
  by (simp_all add: PutUint16_def PutUint32_def PutUint64_def length_put_at)

lemma length_encodeTime:
  "length (encodeTime t) =
     (if sint (unix t) > MinInt32 \<and> sint (unix t) < MaxInt32 then 4 else 8)
     + (if nanosecond t \<noteq> 0 then 4 else 0)
     + (if location_is_UTC t then 0 else 2)
     + (if \<not> (sint (unix t) > MinInt32 \<and> sint (unix t) < MaxInt32) \<and> nanosecond t = 0
        then 1 else 0)"
  by (simp add: encodeTime_def Let_def split: prod.splits)

lemma encodeTime_secs_short:
  assumes "sint (unix t) > MinInt32" "sint (unix t) < MaxInt32"
  shows "take 4 (encodeTime t) = be32 (ucast (unix t))"
proof -
  from assms have eq: "(MinInt32 < sint (unix t) \<and> sint (unix t) < MaxInt32) = True"
    by simp
  show ?thesis
    by (simp add: encodeTime_def Let_def eq PutUint32_def PutUint16_def put_at_def
             split: prod.splits)
qed

lemma encodeTime_secs_long:
  assumes "\<not> (sint (unix t) > MinInt32 \<and> sint (unix t) < MaxInt32)"
  shows "take 8 (encodeTime t) = be64 (unix t)"
proof -
  from assms have eq: "(MinInt32 < sint (unix t) \<and> sint (unix t) < MaxInt32) = False"
    by simp
  show ?thesis
    by (simp add: encodeTime_def Let_def eq PutUint32_def PutUint64_def PutUint16_def put_at_def
             split: prod.splits)
qed

lemma encodeTime_long_pad:
  assumes "\<not> (sint (unix t) > MinInt32 \<and> sint (unix t) < MaxInt32)"
    and "location_is_UTC t" "nanosecond t = 0"
  shows "encodeTime t = be64 (unix t) @ [0]"
proof -
  from assms have eq: "(MinInt32 < sint (unix t) \<and> sint (unix t) < MaxInt32) = False"
    by simp
  show ?thesis
    using assms(2,3)
    by (simp add: encodeTime_def Let_def eq PutUint64_def put_at_def split: prod.splits)
qed

text \<open>C3, as the specification states it, fails at the ends of the signed 32-bit range: the
  instant \<open>2147483647\<close> seconds after the epoch (\<open>MaxInt32\<close>), in UTC with zero
  nanoseconds, lies within the range and is encoded in 9 bytes, not 4.\<close>

theorem encodeTime_maxint32_not_4_bytes:
  "MinInt32 \<le> sint (unix time_maxint32) \<and> sint (unix time_maxint32) \<le> MaxInt32
   \<and> location_is_UTC time_maxint32 \<and> nanosecond time_maxint32 = 0
   \<and> length (encodeTime time_maxint32) = 9
   \<and> length (encodeTime time_maxint32) \<noteq> 4"
  by (simp add: length_encodeTime time_maxint32_def MinInt32_def MaxInt32_def)

text \<open>C3, amended: the seconds are written as 4 bytes exactly when they lie strictly
  between \<open>MinInt32\<close> and \<open>MaxInt32\<close>; then a UTC instant with zero nanoseconds encodes to
  4 bytes, with non-zero nanoseconds to 8 bytes, and a non-UTC instant with zero
  nanoseconds to 6 bytes. For all other seconds (the two ends of the 32-bit range
  included) the seconds take 8 bytes, and a UTC instant with zero nanoseconds encodes to
  9 bytes: the 8 bytes of the seconds and one zero byte.\<close>

theorem encodeTime_layout:
  "(MinInt32 < sint (unix t) \<and> sint (unix t) < MaxInt32 \<longrightarrow>
      take 4 (encodeTime t) = be32 (ucast (unix t))
      \<and> (location_is_UTC t \<and> nanosecond t = 0 \<longrightarrow> length (encodeTime t) = 4)
      \<and> (location_is_UTC t \<and> nanosecond t \<noteq> 0 \<longrightarrow> length (encodeTime t) = 8)
      \<and> (\<not> location_is_UTC t \<and> nanosecond t = 0 \<longrightarrow> length (encodeTime t) = 6))
   \<and> (\<not> (MinInt32 < sint (unix t) \<and> sint (unix t) < MaxInt32) \<longrightarrow>
      take 8 (encodeTime t) = be64 (unix t)
      \<and> (location_is_UTC t \<and> nanosecond t = 0 \<longrightarrow>
           encodeTime t = be64 (unix t) @ [0] \<and> length (encodeTime t) = 9))"
proof (intro conjI impI)
  assume "MinInt32 < sint (unix t) \<and> sint (unix t) < MaxInt32"
  then show "take 4 (encodeTime t) = be32 (ucast (unix t))"
    by (simp add: encodeTime_secs_short)
next
  assume "\<not> (MinInt32 < sint (unix t) \<and> sint (unix t) < MaxInt32)"
  then show "take 8 (encodeTime t) = be64 (unix t)"
    by (rule encodeTime_secs_long)
next
  assume "\<not> (MinInt32 < sint (unix t) \<and> sint (unix t) < MaxInt32)"
    and "location_is_UTC t \<and> nanosecond t = 0"
  then show "encodeTime t = be64 (unix t) @ [0]"
    by (simp add: encodeTime_long_pad)
qed (simp_all add: length_encodeTime)

theorem encodeTime_layout_witness:
  "MinInt32 < sint (unix time_small) \<and> sint (unix time_small) < MaxInt32
   \<and> location_is_UTC time_small \<and> nanosecond time_small = 0
   \<and> encodeTime time_small = be32 1351700038
   \<and> length (encodeTime (time_small\<lparr>nanosecond := 5\<rparr>)) = 8
   \<and> length (encodeTime (time_small\<lparr>location_is_UTC := False\<rparr>)) = 6
   \<and> \<not> (MinInt32 < sint (unix time_large) \<and> sint (unix time_large) < MaxInt32)
   \<and> location_is_UTC time_large \<and> nanosecond time_large = 0
   \<and> encodeTime time_large = be64 4294967296 @ [0]"
proof -
  have s: "MinInt32 < sint (unix time_small) \<and> sint (unix time_small) < MaxInt32"
    and l: "\<not> (MinInt32 < sint (unix time_large) \<and> sint (unix time_large) < MaxInt32)"
    by (simp_all add: time_small_def time_large_def MinInt32_def MaxInt32_def)
  have u: "location_is_UTC time_small \<and> nanosecond time_small = 0"
          "location_is_UTC time_large \<and> nanosecond time_large = 0"
    by (simp_all add: time_small_def time_large_def)
  have "take 4 (encodeTime time_small) = be32 (ucast (unix time_small))"
       "length (encodeTime time_small) = 4"
    using encodeTime_layout [of time_small] s u by simp_all
  then have "encodeTime time_small = be32 (ucast (unix time_small))"
    by simp
  then have 1: "encodeTime time_small = be32 1351700038"
    by (simp add: time_small_def)
  have 2: "length (encodeTime (time_small\<lparr>nanosecond := 5\<rparr>)) = 8"
    using encodeTime_layout [of "time_small\<lparr>nanosecond := 5\<rparr>"] s u by simp
  have 3: "length (encodeTime (time_small\<lparr>location_is_UTC := False\<rparr>)) = 6"
    using encodeTime_layout [of "time_small\<lparr>location_is_UTC := False\<rparr>"] s u by simp
  have "encodeTime time_large = be64 (unix time_large) @ [0]"
    using encodeTime_layout [of time_large] l u by simp
  then have 4: "encodeTime time_large = be64 4294967296 @ [0]"
    by (simp add: time_large_def)
  from s l u 1 2 3 4 show ?thesis by simp
qed

section \<open>Floating-point values\<close>

text \<open>
  A float32 or float64 is carried as its IEEE-754 bit pattern. \<open>unpack wa wb\<close> splits a
  pattern into sign, exponent (\<open>wb\<close> bits) and mantissa (\<open>wa\<close> bits); \<open>pack\<close> puts them
  together.
\<close>

type_synonym float32 = "32 word"
type_synonym float64 = "64 word"

definition unpack :: "nat \<Rightarrow> nat \<Rightarrow> nat \<Rightarrow> nat \<times> nat \<times> nat" where
  "unpack wa wb n = (n div 2 ^ (wa + wb), (n div 2 ^ wa) mod 2 ^ wb, n mod 2 ^ wa)"

definition pack :: "nat \<Rightarrow> nat \<Rightarrow> nat \<times> nat \<times> nat \<Rightarrow> nat" where
  "pack wa wb f = (case f of (s, e, m) \<Rightarrow> s * 2 ^ (wa + wb) + e * 2 ^ wa + m)"

text \<open>The number of binary digits of a natural number.\<close>

fun bitlen :: "nat \<Rightarrow> nat" where
  "bitlen n = (if n = 0 then 0 else Suc (bitlen (n div 2)))"

declare bitlen.simps [simp del]

text \<open>
  Go's conversions \<^verbatim>\<open>float64(x)\<close> of a float32 and \<^verbatim>\<open>float32(d)\<close> of a float64, as the
  IEEE-754 conversion instructions compute them: widening is exact, narrowing rounds to
  the nearest value, ties to even (\<open>rne\<close>), with overflow to infinity; both turn a
  signalling NaN into the quiet NaN of the same payload (\<open>quiet\<close> sets the top bit of the
  mantissa of a float32).
\<close>

definition quiet :: "nat \<Rightarrow> nat" where
  "quiet m = (if m div 2 ^ 22 = 1 then m else m + 2 ^ 22)"

definition widen_fields :: "nat \<times> nat \<times> nat \<Rightarrow> nat \<times> nat \<times> nat" where
  "widen_fields f =
     (case f of (s, e, m) \<Rightarrow>
        if e = 255 then (s, 2047, if m = 0 then 0 else quiet m * 2 ^ 29)
        else if e = 0 then
          (if m = 0 then (s, 0, 0)
           else (s, 874 + (bitlen m - 1), m * 2 ^ (52 - (bitlen m - 1)) - 2 ^ 52))
        else (s, e + 896, m * 2 ^ 29))"

definition rne :: "nat \<Rightarrow> nat \<Rightarrow> nat" where
  "rne sig sh =
     (let q = sig div 2 ^ sh; r = sig mod 2 ^ sh; half = 2 ^ (sh - 1)
      in if r > half \<or> (r = half \<and> odd q) then q + 1 else q)"

definition narrow_fields :: "nat \<times> nat \<times> nat \<Rightarrow> nat" where
  "narrow_fields f =
     (case f of (s, e, m) \<Rightarrow>
        if e = 2047 then
          (if m = 0 then pack 23 8 (s, 255, 0) else pack 23 8 (s, 255, quiet (m div 2 ^ 29)))
        else
          (let sig = (if e = 0 then m else 2 ^ 52 + m);
               ee = max e 1;
               bits = (if ee \<ge> 897 then rne sig 29 + (ee - 897) * 2 ^ 23
                       else rne sig (926 - ee))
           in if bits \<ge> 255 * 2 ^ 23 then pack 23 8 (s, 255, 0) else s * 2 ^ 31 + bits))"

definition float64_of_float32 :: "float32 \<Rightarrow> float64" where
  "float64_of_float32 x = of_nat (pack 52 11 (widen_fields (unpack 23 8 (unat x))))"

definition float32_of_float64 :: "float64 \<Rightarrow> float32" where
  "float32_of_float64 d = of_nat (narrow_fields (unpack 52 11 (unat d)))"

text \<open>A signalling NaN: the exponent all ones, the mantissa not zero, its top bit clear.
  A NaN: the exponent all ones, the mantissa not zero. Go's \<^verbatim>\<open>==\<close> on floats: no NaN
  equals anything, and the two zeros are equal.\<close>

definition signalling_NaN32 :: "float32 \<Rightarrow> bool" where
  "signalling_NaN32 x =
     (case unpack 23 8 (unat x) of (s, e, m) \<Rightarrow> e = 255 \<and> m \<noteq> 0 \<and> m div 2 ^ 22 = 0)"

definition is_NaN32 :: "float32 \<Rightarrow> bool" where
  "is_NaN32 x = (case unpack 23 8 (unat x) of (s, e, m) \<Rightarrow> e = 255 \<and> m \<noteq> 0)"

definition is_NaN64 :: "float64 \<Rightarrow> bool" where
  "is_NaN64 x = (case unpack 52 11 (unat x) of (s, e, m) \<Rightarrow> e = 2047 \<and> m \<noteq> 0)"

definition float32_eq :: "float32 \<Rightarrow> float32 \<Rightarrow> bool" where
  "float32_eq x y \<longleftrightarrow>
     \<not> is_NaN32 x \<and> \<not> is_NaN32 y \<and> (x = y \<or> (push_bit 1 x = 0 \<and> push_bit 1 y = 0))"

definition float64_eq :: "float64 \<Rightarrow> float64 \<Rightarrow> bool" where
  "float64_eq x y \<longleftrightarrow>
     \<not> is_NaN64 x \<and> \<not> is_NaN64 y \<and> (x = y \<or> (push_bit 1 x = 0 \<and> push_bit 1 y = 0))"

section \<open>Properties of the floating-point conversions\<close>

lemma div_mod_radix:
  fixes m :: nat
  assumes "m < A"
  shows "(x * A + m) div A = x" "(x * A + m) mod A = m"
  using assms by simp_all

lemma unpack_pack:
  assumes "m < 2 ^ wa" "e < 2 ^ wb"
  shows "unpack wa wb (pack wa wb (s, e, m)) = (s, e, m)"
proof -
  define A :: nat where "A = 2 ^ wa"
  define B :: nat where "B = 2 ^ wb"
  have AB: "(2::nat) ^ (wa + wb) = B * A" by (simp add: A_def B_def power_add)
  have n: "s * (B * A) + e * A + m = (s * B + e) * A + m"
    by (simp add: algebra_simps)
  have m: "m < A" and e: "e < B" using assms by (simp_all add: A_def B_def)
  have 1: "(s * (B * A) + e * A + m) mod A = m"
    unfolding n by (rule div_mod_radix(2) [OF m])
  have d: "(s * (B * A) + e * A + m) div A = s * B + e"
    unfolding n by (rule div_mod_radix(1) [OF m])
  have 2: "(s * B + e) mod B = e"
    by (rule div_mod_radix(2) [OF e])
  have "e * A + m < B * A"
  proof -
    have "e * A + m < (e + 1) * A" using m by simp
    also have "\<dots> \<le> B * A" using e by (intro mult_right_mono) simp_all
    finally show ?thesis .
  qed
  then have "(s * (B * A) + (e * A + m)) div (B * A) = s"
    by (rule div_mod_radix(1))
  then have 3: "(s * (B * A) + e * A + m) div (B * A) = s"
    by (simp only: add.assoc)
  show ?thesis
    unfolding unpack_def pack_def prod.case AB
    unfolding A_def [symmetric] B_def [symmetric]
    by (simp only: 1 d 2 3)
qed

lemma pack_unpack: "pack wa wb (unpack wa wb n) = n"
proof -
  define A :: nat where "A = 2 ^ wa"
  define B :: nat where "B = 2 ^ wb"
  define q where "q = n div A"
  have AB: "(2::nat) ^ (wa + wb) = A * B" by (simp add: A_def B_def power_add)
  have "n div (A * B) = q div B"
    by (simp add: q_def div_mult2_eq)
  then have "n div (A * B) * (A * B) + q mod B * A + n mod A
               = q div B * (A * B) + q mod B * A + n mod A"
    by (simp only:)
  also have "\<dots> = (q div B * B + q mod B) * A + n mod A"
    by (simp only: distrib_right mult.assoc mult.commute [of A B])
  also have "\<dots> = q * A + n mod A" by simp
  also have "\<dots> = n" by (simp add: q_def)
  finally show ?thesis
    unfolding unpack_def pack_def prod.case AB
    unfolding A_def [symmetric] B_def [symmetric] q_def [symmetric] .
qed

lemma unpack_bounds:
  assumes "n < 2 ^ (wa + wb + 1)"
  shows "fst (unpack wa wb n) < 2" "fst (snd (unpack wa wb n)) < 2 ^ wb" "snd (snd (unpack wa wb n)) < 2 ^ wa"
proof -
  show "fst (unpack wa wb n) < 2"
    using assms by (simp add: unpack_def less_mult_imp_div_less)
qed (simp_all add: unpack_def)

lemma bitlen_bounds: "0 < m \<Longrightarrow> 2 ^ (bitlen m - 1) \<le> m \<and> m < 2 ^ bitlen m"
proof (induction m rule: bitlen.induct)
  case (1 n)
  show ?case
  proof (cases "n div 2 = 0")
    case True
    with 1 have "n = 1" by (simp add: div_eq_0_iff)
    then show ?thesis by (simp add: bitlen.simps)
  next
    case False
    with 1 have IH: "2 ^ (bitlen (n div 2) - 1) \<le> n div 2" "n div 2 < 2 ^ bitlen (n div 2)"
      by simp_all
    have wb: "bitlen n = Suc (bitlen (n div 2))" using 1(2) by (subst bitlen.simps) simp
    have p: "bitlen (n div 2) > 0" using False by (subst bitlen.simps) simp
    then have "(2::nat) ^ (bitlen n - 1) = 2 * 2 ^ (bitlen (n div 2) - 1)"
      unfolding wb by (cases "bitlen (n div 2)") simp_all
    with IH show ?thesis unfolding wb by (simp; linarith)
  qed
qed

lemma rne_exact: "0 < j \<Longrightarrow> rne (x * 2 ^ j) j = x"
  by (simp add: rne_def Let_def)

lemma narrow_fields_inf: "narrow_fields (s, 2047, 0) = pack 23 8 (s, 255, 0)"
  by (simp add: narrow_fields_def)

lemma narrow_fields_nan:
  "M \<noteq> 0 \<Longrightarrow> narrow_fields (s, 2047, M) = pack 23 8 (s, 255, quiet (M div 2 ^ 29))"
  by (simp add: narrow_fields_def)

lemma narrow_fields_zero: "narrow_fields (s, 0, 0) = pack 23 8 (s, 0, 0)"
  by (simp add: narrow_fields_def rne_def Let_def pack_def)

lemma narrow_fields_small:
  assumes "0 < E" "E \<le> 896" "2 ^ 52 + M = x * 2 ^ (926 - E)" "x < 255 * 2 ^ 23"
  shows "narrow_fields (s, E, M) = pack 23 8 (s, 0, x)"
proof -
  have j: "0 < 926 - E" using assms(2) by simp
  have E: "E \<noteq> 2047" "E \<noteq> 0" "max E (Suc 0) = E" "\<not> 897 \<le> E" using assms(1,2) by simp_all
  have "rne (2 ^ 52 + M) (926 - E) = x"
    unfolding assms(3) by (rule rne_exact [OF j])
  with assms(4) show ?thesis
    by (simp add: narrow_fields_def Let_def E pack_def)
qed

lemma narrow_fields_normal:
  assumes "0 < e" "e < 255" "m < 2 ^ 23"
  shows "narrow_fields (s, e + 896, m * 2 ^ 29) = pack 23 8 (s, e, m)"
proof -
  have E: "e + 896 \<noteq> 2047" "e + 896 \<noteq> 0" "max (e + 896) 1 = e + 896" "897 \<le> e + 896"
    using assms(1,2) by simp_all
  have "(2::nat) ^ 52 + m * 2 ^ 29 = (2 ^ 23 + m) * 2 ^ 29"
    by (simp add: algebra_simps)
  then have r: "rne (2 ^ 52 + m * 2 ^ 29) 29 = 2 ^ 23 + m"
    using rne_exact [of 29 "2 ^ 23 + m"] by simp
  have wb: "2 ^ 23 + m + (e + 896 - 897) * 2 ^ 23 = e * 2 ^ 23 + m"
  proof -
    obtain e' where "e = Suc e'" using assms(1) by (cases e) auto
    then show ?thesis by simp
  qed
  have lt: "e * 2 ^ 23 + m < 255 * 2 ^ 23"
  proof -
    have "e * 2 ^ 23 + m < (e + 1) * 2 ^ 23" using assms(3) by simp
    also have "\<dots> \<le> 255 * 2 ^ 23" using assms(2) by (intro mult_right_mono) simp_all
    finally show ?thesis .
  qed
  show ?thesis
    unfolding narrow_fields_def prod.case Let_def
    by (simp only: E if_False if_True r wb) (use lt in \<open>simp add: pack_def\<close>)
qed

lemma bitlen_pos: "0 < m \<Longrightarrow> 0 < bitlen m"
  by (subst bitlen.simps) simp

lemma widen_subnormal:
  assumes "0 < m" "m < 2 ^ 23"
  defines "k \<equiv> bitlen m - 1"
  shows "k \<le> 22" "2 ^ 52 \<le> m * 2 ^ (52 - k)" "m * 2 ^ (52 - k) < 2 ^ 53"
proof -
  from bitlen_bounds [OF assms(1)] have lo: "2 ^ k \<le> m" and hi: "m < 2 ^ bitlen m"
    by (simp_all add: k_def)
  have bl: "bitlen m = Suc k"
    using bitlen_pos [OF assms(1)] by (simp add: k_def)
  have "(2::nat) ^ k < 2 ^ 23" using lo assms(2) by simp
  then have "k < 23" by (rule power_less_imp_less_exp [rotated]) simp
  then show k: "k \<le> 22" by simp
  have "(2::nat) ^ 52 = 2 ^ k * 2 ^ (52 - k)"
    using k by (simp add: power_add [symmetric])
  also have "\<dots> \<le> m * 2 ^ (52 - k)" using lo by (intro mult_right_mono) simp_all
  finally show "2 ^ 52 \<le> m * 2 ^ (52 - k)" .
  have "m * 2 ^ (52 - k) < 2 ^ Suc k * 2 ^ (52 - k)"
    using hi unfolding bl by (intro mult_strict_right_mono) simp_all
  also have "\<dots> = 2 ^ 53" using k by (simp add: power_add [symmetric] del: power_Suc)
  finally show "m * 2 ^ (52 - k) < 2 ^ 53" .
qed

lemma narrow_widen_fields:
  assumes "e < 256" "m < 2 ^ 23" "\<not> (e = 255 \<and> m \<noteq> 0 \<and> m div 2 ^ 22 = 0)"
  shows "narrow_fields (unpack 52 11 (pack 52 11 (widen_fields (s, e, m)))) = pack 23 8 (s, e, m)"
proof -
  consider (inf) "e = 255" "m = 0" | (nan) "e = 255" "m \<noteq> 0" "m div 2 ^ 22 \<noteq> 0"
    | (zero) "e = 0" "m = 0" | (sub) "e = 0" "0 < m" | (normal) "0 < e" "e < 255"
    using assms(1,3) by (cases "e = 255"; cases "e = 0"; cases "m = 0") auto
  then show ?thesis
  proof cases
    case inf
    have "unpack 52 11 (pack 52 11 (s, 2047, 0)) = (s, 2047, 0)"
      by (rule unpack_pack) simp_all
    then show ?thesis
      using inf by (simp add: widen_fields_def narrow_fields_inf)
  next
    case nan
    have "m div 2 ^ 22 < 2" using assms(2) by (simp add: less_mult_imp_div_less)
    with nan(3) have q: "quiet m = m" by (simp add: quiet_def)
    have M: "m * 2 ^ 29 < 2 ^ 52"
    proof -
      have "m * 2 ^ 29 < 2 ^ 23 * 2 ^ 29" using assms(2) by (intro mult_strict_right_mono) simp_all
      then show ?thesis by simp
    qed
    have "unpack 52 11 (pack 52 11 (s, 2047, m * 2 ^ 29)) = (s, 2047, m * 2 ^ 29)"
      by (rule unpack_pack [OF M]) simp
    moreover have "narrow_fields (s, 2047, m * 2 ^ 29) = pack 23 8 (s, 255, m)"
      using nan(2) q by (simp add: narrow_fields_nan)
    ultimately show ?thesis
      using nan q by (simp add: widen_fields_def)
  next
    case zero
    have "unpack 52 11 (pack 52 11 (s, 0, 0)) = (s, 0, 0)"
      by (rule unpack_pack) simp_all
    then show ?thesis
      using zero by (simp add: widen_fields_def narrow_fields_zero)
  next
    case sub
    define k where "k = bitlen m - 1"
    note w = widen_subnormal [OF sub(2) assms(2), folded k_def]
    define M where "M = m * 2 ^ (52 - k) - 2 ^ 52"
    have M: "M < 2 ^ 52" "2 ^ 52 + M = m * 2 ^ (52 - k)"
      using w(2,3) by (simp_all add: M_def)
    have E: "874 + k < 2 ^ 11" using w(1) by simp
    have wf: "widen_fields (s, e, m) = (s, 874 + k, M)"
      using sub by (simp add: widen_fields_def k_def M_def)
    have "unpack 52 11 (pack 52 11 (s, 874 + k, M)) = (s, 874 + k, M)"
      by (rule unpack_pack [OF M(1) E])
    moreover have "narrow_fields (s, 874 + k, M) = pack 23 8 (s, 0, m)"
    proof (rule narrow_fields_small)
      show "2 ^ 52 + M = m * 2 ^ (926 - (874 + k))" using M(2) by simp
      show "m < 255 * 2 ^ 23" using assms(2) by simp
    qed (use w(1) in simp_all)
    ultimately show ?thesis
      unfolding wf using sub(1) by simp
  next
    case normal
    have M: "m * 2 ^ 29 < 2 ^ 52"
    proof -
      have "m * 2 ^ 29 < 2 ^ 23 * 2 ^ 29" using assms(2) by (intro mult_strict_right_mono) simp_all
      then show ?thesis by simp
    qed
    have E: "e + 896 < 2 ^ 11" using normal(2) by simp
    have wf: "widen_fields (s, e, m) = (s, e + 896, m * 2 ^ 29)"
      using normal by (simp add: widen_fields_def)
    have up: "unpack 52 11 (pack 52 11 (s, e + 896, m * 2 ^ 29)) = (s, e + 896, m * 2 ^ 29)"
      by (rule unpack_pack [OF M E])
    show ?thesis
      unfolding wf up by (rule narrow_fields_normal [OF normal assms(2)])
  qed
qed

lemma pack_bound:
  assumes "s < 2" "e < 2 ^ wb" "m < 2 ^ wa"
  shows "pack wa wb (s, e, m) < 2 ^ (wa + wb + 1)"
proof -
  have "e * 2 ^ wa + m < (e + 1) * 2 ^ wa" using assms(3) by simp
  also have "\<dots> \<le> 2 ^ wb * 2 ^ wa" using assms(2) by (intro mult_right_mono) simp_all
  finally have 1: "e * 2 ^ wa + m < 2 ^ (wa + wb)" by (simp add: power_add mult.commute)
  define X :: nat where "X = 2 ^ (wa + wb)"
  define Y :: nat where "Y = e * 2 ^ wa + m"
  have "Y < X" using 1 by (simp only: X_def Y_def)
  moreover from assms(1) have "s = 0 \<or> s = 1" by auto
  ultimately have "s * X + Y < 2 * X" by auto
  moreover have "pack wa wb (s, e, m) = s * X + Y"
    by (simp add: pack_def X_def Y_def)
  moreover have "(2::nat) ^ (wa + wb + 1) = 2 * X"
    by (simp add: X_def)
  ultimately show ?thesis by (simp only:)
qed

lemma widen_fields_wf:
  assumes "e < 256" "m < 2 ^ 23"
  shows "\<exists>E M. widen_fields (s, e, m) = (s, E, M) \<and> E < 2 ^ 11 \<and> M < 2 ^ 52"
proof -
  have q: "quiet m * 2 ^ 29 < 2 ^ 52"
  proof -
    have "m div 2 ^ 22 \<noteq> 1 \<Longrightarrow> m < 2 ^ 22"
      using assms(2) by (simp add: div_eq_0_iff [symmetric] less_mult_imp_div_less less_2_cases_iff)
    then have "quiet m < 2 ^ 23" using assms(2) by (auto simp: quiet_def)
    then have "quiet m * 2 ^ 29 < 2 ^ 23 * 2 ^ 29" by (intro mult_strict_right_mono) simp_all
    then show ?thesis by simp
  qed
  have n: "m * 2 ^ 29 < 2 ^ 52"
  proof -
    have "m * 2 ^ 29 < 2 ^ 23 * 2 ^ 29" using assms(2) by (intro mult_strict_right_mono) simp_all
    then show ?thesis by simp
  qed
  show ?thesis
  proof (cases "e = 0 \<and> 0 < m")
    case True
    from widen_subnormal [OF _ assms(2)] True
    have "bitlen m - 1 \<le> 22" "m * 2 ^ (52 - (bitlen m - 1)) < 2 ^ 53" by simp_all
    then show ?thesis using True by (simp add: widen_fields_def)
  next
    case False
    then show ?thesis using assms(1) q n by (auto simp: widen_fields_def)
  qed
qed

lemma widen_fields_bound:
  assumes "s < 2" "e < 256" "m < 2 ^ 23"
  shows "pack 52 11 (widen_fields (s, e, m)) < 2 ^ 64"
proof -
  from widen_fields_wf [OF assms(2,3)] obtain E M where
    w: "widen_fields (s, e, m) = (s, E, M)" "E < 2 ^ 11" "M < 2 ^ 52" by blast
  from pack_bound [OF assms(1) w(2,3)] show ?thesis by (simp add: w(1))
qed

lemma float32_roundtrip:
  assumes "\<not> signalling_NaN32 x"
  shows "float32_of_float64 (float64_of_float32 x) = x"
proof -
  obtain s e m where u: "unpack 23 8 (unat x) = (s, e, m)"
    by (cases "unpack 23 8 (unat x)")
  have n: "unat x < 2 ^ (23 + 8 + 1)"
    using unsigned_less [of x] by simp
  from unpack_bounds [OF n] u have wb: "s < 2" "e < 256" "m < 2 ^ 23"
    by simp_all
  from assms u have ns: "\<not> (e = 255 \<and> m \<noteq> 0 \<and> m div 2 ^ 22 = 0)"
    by (simp add: signalling_NaN32_def)
  have lt: "pack 52 11 (widen_fields (s, e, m)) < 2 ^ 64"
    by (rule widen_fields_bound [OF wb])
  have "unat (float64_of_float32 x) = pack 52 11 (widen_fields (s, e, m))"
    unfolding float64_of_float32_def u using lt by (simp add: unat_of_nat)
  then have "float32_of_float64 (float64_of_float32 x) = of_nat (pack 23 8 (s, e, m))"
    unfolding float32_of_float64_def [of "float64_of_float32 x"]
    by (simp only: narrow_widen_fields [OF wb(2,3) ns])
  also have "\<dots> = of_nat (unat x)"
    using pack_unpack [of 23 8 "unat x"] u by simp
  finally show ?thesis by simp
qed

section \<open>The reflected values the encoder walks\<close>

text \<open>
  Package \<^verbatim>\<open>reflect\<close> as far as the encoder uses it. \<open>kind\<close> is \<^verbatim>\<open>reflect.Kind\<close>
  (\<open>KInt\<close> is \<^verbatim>\<open>reflect.Int\<close>, and so on). An \<open>rtype\<close> is the identity of a Go type:
  \<open>Predeclared k\<close> is the predeclared type of a scalar kind (\<^verbatim>\<open>int\<close>, \<^verbatim>\<open>string\<close>,
  \<^verbatim>\<open>uint8\<close>, ...), \<open>Named n t\<close> a defined type \<^verbatim>\<open>type n t\<close> with underlying type \<open>t\<close>;
  two types are the same type (\<^verbatim>\<open>==\<close> on \<^verbatim>\<open>reflect.Type\<close>) when the terms are equal.
\<close>

datatype kind =
    KInvalid | KBool | KInt | KInt8 | KInt16 | KInt32 | KInt64
  | KUint | KUint8 | KUint16 | KUint32 | KUint64 | KUintptr
  | KFloat32 | KFloat64 | KComplex64 | KComplex128
  | KArray | KChan | KFunc | KInterface | KMap | KPtr | KSlice | KString | KStruct
  | KUnsafePointer

datatype rtype =
    Predeclared kind
  | Named string rtype
  | SliceOf rtype
  | ArrayOf nat rtype
  | MapOf rtype rtype
  | PtrTo rtype
  | StructType string
  | InterfaceType string
  | OtherType kind string

text \<open>\<^verbatim>\<open>int\<close> and \<^verbatim>\<open>uint\<close> are 64 bits wide.\<close>

datatype scalar =
    SString string | SBool bool
  | SInt "64 word" | SInt8 "8 word" | SInt16 "16 word" | SInt32 "32 word" | SInt64 "64 word"
  | SUint "64 word" | SUint8 "8 word" | SUint16 "16 word" | SUint32 "32 word" | SUint64 "64 word"
  | SFloat32 float32 | SFloat64 float64

text \<open>
  A \<^verbatim>\<open>reflect.Value\<close>: its type and what it holds. \<open>VInvalid\<close> is the zero Value. The
  kind of a value is given by its constructor; nil and non-nil slices, maps, pointers and
  interfaces are different constructors (\<^verbatim>\<open>rv.IsNil()\<close>). A map lists its entries in
  the order \<^verbatim>\<open>rv.MapKeys()\<close> yields the keys; a struct lists its fields by index; the flag
  of an array is \<^verbatim>\<open>rv.CanAddr()\<close>. \<open>VOther\<close> is a value of a kind the encoder has no
  case for (uintptr, complex, chan, func, unsafe pointer). Values are finite trees, so
  cyclic data is not represented.
\<close>

datatype rvalue =
    VInvalid
  | VScalar rtype scalar
  | VSliceNil rtype
  | VSlice rtype "rvalue list"
  | VArray rtype bool "rvalue list"
  | VMapNil rtype
  | VMap rtype "(rvalue \<times> rvalue) list"
  | VStruct rtype "rvalue list"
  | VPtrNil rtype
  | VPtr rtype rvalue
  | VIfaceNil rtype
  | VIface rtype rvalue
  | VOther rtype

fun type_Kind :: "rtype \<Rightarrow> kind" where
  "type_Kind (Predeclared k) = k"
| "type_Kind (Named n t) = type_Kind t"
| "type_Kind (SliceOf t) = KSlice"
| "type_Kind (ArrayOf n t) = KArray"
| "type_Kind (MapOf k v) = KMap"
| "type_Kind (PtrTo t) = KPtr"
| "type_Kind (StructType n) = KStruct"
| "type_Kind (InterfaceType n) = KInterface"
| "type_Kind (OtherType k n) = k"

text \<open>\<^verbatim>\<open>rt.Key()\<close> and \<^verbatim>\<open>rt.Elem()\<close>; \<open>None\<close> where reflect panics.\<close>

fun type_Key :: "rtype \<Rightarrow> rtype option" where
  "type_Key (MapOf k v) = Some k"
| "type_Key (Named n t) = type_Key t"
| "type_Key _ = None"

fun type_Elem :: "rtype \<Rightarrow> rtype option" where
  "type_Elem (SliceOf t) = Some t"
| "type_Elem (ArrayOf n t) = Some t"
| "type_Elem (MapOf k v) = Some v"
| "type_Elem (PtrTo t) = Some t"
| "type_Elem (Named n t) = type_Elem t"
| "type_Elem _ = None"

text \<open>\<^verbatim>\<open>rv.Type()\<close> panics on the zero Value.\<close>

fun rv_Type :: "rvalue \<Rightarrow> rtype option" where
  "rv_Type VInvalid = None"
| "rv_Type (VScalar t s) = Some t"
| "rv_Type (VSliceNil t) = Some t"
| "rv_Type (VSlice t xs) = Some t"
| "rv_Type (VArray t a xs) = Some t"
| "rv_Type (VMapNil t) = Some t"
| "rv_Type (VMap t es) = Some t"
| "rv_Type (VStruct t fs) = Some t"
| "rv_Type (VPtrNil t) = Some t"
| "rv_Type (VPtr t v) = Some t"
| "rv_Type (VIfaceNil t) = Some t"
| "rv_Type (VIface t v) = Some t"
| "rv_Type (VOther t) = Some t"

text \<open>\<^verbatim>\<open>rv.String()\<close> of a value of kind string; \<^verbatim>\<open>rv.Bytes()\<close> of the elements of a
  byte slice. \<open>None\<close> stands for a value Go's type system excludes at that place.\<close>

fun rv_String :: "rvalue \<Rightarrow> string option" where
  "rv_String (VScalar t (SString s)) = Some s"
| "rv_String _ = None"

fun rv_Bytes :: "rvalue list \<Rightarrow> byte list option" where
  "rv_Bytes [] = Some []"
| "rv_Bytes (VScalar t (SUint8 x) # vs) = map_option ((#) x) (rv_Bytes vs)"
| "rv_Bytes (_ # vs) = None"

text \<open>
  Go's \<^verbatim>\<open>==\<close> on the values that can be map keys: floats compare as IEEE-754 numbers,
  so a NaN equals nothing, itself included; arrays and structs compare element by
  element, interfaces by what they hold; all other values are equal when they are the
  same value (a pointer is given by what it points to, and is compared so).
  \<^verbatim>\<open>rv.MapIndex(k)\<close> is the value of the entry whose key equals \<open>k\<close>, and the zero Value
  when no key does.
\<close>

fun scalar_eq :: "scalar \<Rightarrow> scalar \<Rightarrow> bool" where
  "scalar_eq (SFloat32 x) s = (case s of SFloat32 y \<Rightarrow> float32_eq x y | _ \<Rightarrow> False)"
| "scalar_eq (SFloat64 x) s = (case s of SFloat64 y \<Rightarrow> float64_eq x y | _ \<Rightarrow> False)"
| "scalar_eq s' s = (s' = s)"

fun go_eq :: "rvalue \<Rightarrow> rvalue \<Rightarrow> bool"
  and go_eq_list :: "rvalue list \<Rightarrow> rvalue list \<Rightarrow> bool" where
  "go_eq (VScalar t s) w = (case w of VScalar t' s' \<Rightarrow> t = t' \<and> scalar_eq s s' | _ \<Rightarrow> False)"
| "go_eq (VArray t a xs) w =
     (case w of VArray t' a' ys \<Rightarrow> t = t' \<and> go_eq_list xs ys | _ \<Rightarrow> False)"
| "go_eq (VStruct t xs) w =
     (case w of VStruct t' ys \<Rightarrow> t = t' \<and> go_eq_list xs ys | _ \<Rightarrow> False)"
| "go_eq (VIface t x) w = (case w of VIface t' y \<Rightarrow> t = t' \<and> go_eq x y | _ \<Rightarrow> False)"
| "go_eq v w = (v = w)"
| "go_eq_list [] ys = (ys = [])"
| "go_eq_list (x # xs) ys = (case ys of [] \<Rightarrow> False | y # ys' \<Rightarrow> go_eq x y \<and> go_eq_list xs ys')"

definition rv_MapIndex :: "(rvalue \<times> rvalue) list \<Rightarrow> rvalue \<Rightarrow> rvalue" where
  "rv_MapIndex es k =
     (case find (\<lambda>(k', v). go_eq k' k) es of None \<Rightarrow> VInvalid | Some (k', v) \<Rightarrow> v)"

text \<open>A Go map holds no two keys that are equal under \<^verbatim>\<open>==\<close>.\<close>

fun keys_differ :: "rvalue list \<Rightarrow> bool" where
  "keys_differ [] = True"
| "keys_differ (k # ks) = ((\<forall>k' \<in> set ks. \<not> go_eq k k') \<and> keys_differ ks)"

text \<open>\<^verbatim>\<open>rv.Field(n)\<close> and \<^verbatim>\<open>rv.FieldByIndex(path)\<close>: after its first step the path steps
  through a pointer to a struct. The path is given by its first index and the rest.\<close>

fun rv_Field :: "rvalue \<Rightarrow> nat \<Rightarrow> error + rvalue" where
  "rv_Field (VStruct t fs) n =
     (if n < length fs then Inr (fs ! n)
      else Inl (ReflectPanic ''reflect: Field index out of range''))"
| "rv_Field _ n = Inl (ReflectPanic ''reflect: call of reflect.Value.Field on non-struct Value'')"

fun rv_FieldByIndex_rest :: "rvalue \<Rightarrow> nat list \<Rightarrow> error + rvalue" where
  "rv_FieldByIndex_rest v [] = Inr v"
| "rv_FieldByIndex_rest v (x # xs) =
     bindE (rv_Field (case v of VPtr t (VStruct t' fs) \<Rightarrow> VStruct t' fs | _ \<Rightarrow> v) x)
           (\<lambda>v'. rv_FieldByIndex_rest v' xs)"

definition rv_FieldByIndex :: "rvalue \<Rightarrow> nat \<times> nat list \<Rightarrow> error + rvalue" where
  "rv_FieldByIndex v p = bindE (rv_Field v (fst p)) (\<lambda>v'. rv_FieldByIndex_rest v' (snd p))"

text \<open>The size of a value, for the recursion of the encoder: an array is larger than the
  slice over its elements.\<close>

fun vsize :: "rvalue \<Rightarrow> nat" where
  "vsize (VSlice t xs) = Suc (sum_list (map vsize xs))"
| "vsize (VArray t a xs) = Suc (Suc (sum_list (map vsize xs)))"
| "vsize (VMap t es) = Suc (sum_list (map (\<lambda>(k, v). vsize k + vsize v) es))"
| "vsize (VStruct t fs) = Suc (sum_list (map vsize fs))"
| "vsize (VPtr t v) = Suc (vsize v)"
| "vsize (VIface t v) = Suc (vsize v)"
| "vsize _ = 0"

section \<open>The extension registry\<close>

text \<open>
  An extension function returns a payload (\<open>None\<close> is the nil slice) and an error
  (\<open>None\<close> is the nil error). The field \<open>fn\<close> of an entry is \<open>None\<close> for a nil function.
\<close>

type_synonym extFn = "rvalue \<Rightarrow> byte list option \<times> string option"

record encExtTagFn =
  fn :: "extFn option"
  tag :: byte

record encExtTypeTagFn = encExtTagFn +
  rt :: rtype

text \<open>
  \<^verbatim>\<open>encHandle\<close>. The Go map \<^verbatim>\<open>extFuncs\<close> is an association list with one entry for
  each key (the nil map is the empty list: it is only read before \<^verbatim>\<open>addEncodeExt\<close>
  allocates it). The slice \<^verbatim>\<open>exts\<close> is \<open>None\<close> when nil, with its capacity beside it.
\<close>

record encHandle =
  extFuncs :: "(rtype \<times> encExtTagFn) list"
  exts :: "encExtTypeTagFn list option"
  exts_cap :: nat

definition encHandle_zero :: encHandle where
  "encHandle_zero = \<lparr>extFuncs = [], exts = None, exts_cap = 0\<rparr>"

text \<open>
  \<^verbatim>\<open>addEncodeExt\<close> (encode.go:114). Go leaves the order in which \<^verbatim>\<open>range\<close> visits a map
  open: \<open>rangeOrder\<close> is that order, a parameter. The loop overwrites all \<open>leno\<close> visible
  entries of \<^verbatim>\<open>o.exts\<close>, one for each entry of the map.
\<close>

definition addEncodeExt ::
  "((rtype \<times> encExtTagFn) list \<Rightarrow> (rtype \<times> encExtTagFn) list)
   \<Rightarrow> encHandle \<Rightarrow> rtype \<Rightarrow> byte \<Rightarrow> extFn option \<Rightarrow> encHandle" where
  "addEncodeExt rangeOrder eh t g f =
     (let eh1 = (if exts eh = None then eh\<lparr>exts := Some [], exts_cap := 8, extFuncs := []\<rparr>
                 else eh);
          m1 = filter (\<lambda>(k, v). k \<noteq> t) (extFuncs eh1);
          m2 = (case f of None \<Rightarrow> m1 | Some f' \<Rightarrow> m1 @ [(t, \<lparr>fn = Some f', tag = g\<rparr>)]);
          leno = length m2;
          cap' = (if leno > exts_cap eh1 then leno * 3 div 2 else exts_cap eh1);
          es = map (\<lambda>(k, v). \<lparr>fn = fn v, tag = tag v, rt = k\<rparr>) (rangeOrder m2)
      in eh1\<lparr>extFuncs := m2, exts := Some es, exts_cap := cap'\<rparr>)"

text \<open>\<^verbatim>\<open>getEncodeExt\<close> (encode.go:136); the constant \<^verbatim>\<open>mapAccessThreshold\<close> is declared
  outside encode.go and is a parameter. \<open>(0, None)\<close> is the zero result, not found.\<close>

fun scan_exts :: "encExtTypeTagFn list \<Rightarrow> rtype \<Rightarrow> (byte \<times> extFn option) option" where
  "scan_exts [] t = None"
| "scan_exts (x # xs) t = (if rt x = t then Some (tag x, fn x) else scan_exts xs t)"

definition getEncodeExt :: "nat \<Rightarrow> encHandle \<Rightarrow> rtype \<Rightarrow> byte \<times> extFn option" where
  "getEncodeExt mapAccessThreshold eh t =
     (let es = (case exts eh of None \<Rightarrow> [] | Some es \<Rightarrow> es); l = length es
      in if l = 0 then (0, None)
         else if l < mapAccessThreshold then
           (case scan_exts es t of Some r \<Rightarrow> r | None \<Rightarrow> (0, None))
         else (case map_of (extFuncs eh) t of None \<Rightarrow> (0, None) | Some x \<Rightarrow> (tag x, fn x)))"

text \<open>A sequence of registrations with non-nil functions, in order.\<close>

fun register_all ::
  "((rtype \<times> encExtTagFn) list \<Rightarrow> (rtype \<times> encExtTagFn) list)
   \<Rightarrow> encHandle \<Rightarrow> (rtype \<times> byte \<times> extFn) list \<Rightarrow> encHandle" where
  "register_all ord eh [] = eh"
| "register_all ord eh ((t, g, f) # rs) = register_all ord (addEncodeExt ord eh t g (Some f)) rs"

definition ext_nil :: extFn where
  "ext_nil v = (None, None)"

definition ext_bytes :: extFn where
  "ext_bytes v = (Some [1, 2, 3], None)"

definition ext_fails :: extFn where
  "ext_fails v = (None, Some ''no encoding'')"

definition regs_example :: "(rtype \<times> byte \<times> extFn) list" where
  "regs_example = [(Predeclared KInt, 1, ext_nil), (Predeclared KString, 2, ext_bytes),
                   (Predeclared KBool, 3, ext_fails)]"

subsection \<open>The two views of the registry agree\<close>

definition reg_inv ::
  "((rtype \<times> encExtTagFn) list \<Rightarrow> (rtype \<times> encExtTagFn) list) \<Rightarrow> encHandle \<Rightarrow> bool" where
  "reg_inv ord eh \<longleftrightarrow>
     distinct (map fst (extFuncs eh)) \<and>
     (case exts eh of None \<Rightarrow> extFuncs eh = []
      | Some es \<Rightarrow> es = map (\<lambda>(k, v). \<lparr>fn = fn v, tag = tag v, rt = k\<rparr>) (ord (extFuncs eh)))"

definition found :: "encExtTagFn option \<Rightarrow> byte \<times> extFn option" where
  "found r = (case r of None \<Rightarrow> (0, None) | Some x \<Rightarrow> (tag x, fn x))"

definition entry :: "rtype \<times> byte \<times> extFn \<Rightarrow> rtype \<times> encExtTagFn" where
  "entry r = (case r of (t, g, f) \<Rightarrow> (t, \<lparr>fn = Some f, tag = g\<rparr>))"

lemma scan_exts_map:
  "scan_exts (map (\<lambda>(k, v). \<lparr>fn = fn v, tag = tag v, rt = k\<rparr>) xs) t
     = map_option (\<lambda>x. (tag x, fn x)) (map_of xs t)"
  by (induction xs) auto

lemma perm_map_of:
  assumes "mset ys = mset xs" "distinct (map fst xs)"
  shows "map_of ys = map_of xs"
proof -
  have "mset (map fst ys) = mset (map fst xs)" using assms(1) by simp
  then have "distinct (map fst ys)" using assms(2) by (metis mset_eq_imp_distinct_iff)
  moreover have "set ys = set xs" using assms(1) by (metis set_mset_mset)
  ultimately show ?thesis using assms(2) by (simp add: map_of_inject_set)
qed

lemma getEncodeExt_inv:
  assumes p: "\<And>m. mset (ord m) = mset m" and inv: "reg_inv ord eh"
  shows "getEncodeExt thr eh t = found (map_of (extFuncs eh) t)"
proof (cases "exts eh")
  case None
  with inv show ?thesis by (simp add: reg_inv_def getEncodeExt_def found_def)
next
  case (Some es)
  with inv have es: "es = map (\<lambda>(k, v). \<lparr>fn = fn v, tag = tag v, rt = k\<rparr>) (ord (extFuncs eh))"
    and d: "distinct (map fst (extFuncs eh))"
    by (simp_all add: reg_inv_def)
  have mo: "map_of (ord (extFuncs eh)) = map_of (extFuncs eh)"
    by (rule perm_map_of [OF p d])
  have sc: "scan_exts es t = map_option (\<lambda>x. (tag x, fn x)) (map_of (extFuncs eh) t)"
    unfolding es scan_exts_map mo ..
  show ?thesis
  proof (cases "length es = 0")
    case True
    then have "ord (extFuncs eh) = []" using es by simp
    then have "mset (extFuncs eh) = {#}" using p [of "extFuncs eh"] by simp
    then show ?thesis using True Some by (simp add: getEncodeExt_def found_def)
  next
    case False
    then show ?thesis using Some sc
      by (auto simp: getEncodeExt_def found_def Let_def split: option.splits)
  qed
qed

lemma map_of_filter_neq:
  "map_of (filter (\<lambda>(k, v). k \<noteq> t) xs) = (map_of xs)(t := None)"
  by (induction xs) (auto simp: fun_eq_iff)

lemma distinct_filter_neq:
  "distinct (map fst xs) \<Longrightarrow> distinct (map fst (filter (\<lambda>(k, v). k \<noteq> t) xs))"
  by (induction xs) auto

lemma fst_filter_neq: "t \<notin> fst ` set (filter (\<lambda>(k, v). k \<noteq> t) xs)"
  by (induction xs) auto

lemma addEncodeExt_extFuncs:
  assumes "reg_inv ord eh"
  shows "map_of (extFuncs (addEncodeExt ord eh t g f))
           = (map_of (extFuncs eh))(t := map_option (\<lambda>f'. \<lparr>fn = Some f', tag = g\<rparr>) f)"
proof -
  have e: "exts eh = None \<Longrightarrow> extFuncs eh = []"
    using assms by (simp add: reg_inv_def)
  show ?thesis
    using e
    by (cases f; cases "exts eh")
       (auto simp: addEncodeExt_def Let_def map_of_filter_neq fun_eq_iff map_add_def
             split: option.splits)
qed

lemma addEncodeExt_distinct:
  assumes "reg_inv ord eh"
  shows "distinct (map fst (extFuncs (addEncodeExt ord eh t g f)))"
proof -
  have d: "distinct (map fst (extFuncs eh))"
    using assms by (simp add: reg_inv_def)
  show ?thesis
    using distinct_filter_neq [OF d, of t] fst_filter_neq [of t "extFuncs eh"]
    by (cases f; cases "exts eh") (auto simp: addEncodeExt_def Let_def)
qed

lemma addEncodeExt_inv:
  assumes inv: "reg_inv ord eh"
  shows "reg_inv ord (addEncodeExt ord eh t g f)"
proof -
  have "exts (addEncodeExt ord eh t g f)
          = Some (map (\<lambda>(k, v). \<lparr>fn = fn v, tag = tag v, rt = k\<rparr>)
                   (ord (extFuncs (addEncodeExt ord eh t g f))))"
    by (simp add: addEncodeExt_def Let_def)
  with addEncodeExt_distinct [OF inv] show ?thesis
    by (simp add: reg_inv_def)
qed

lemma encHandle_zero_inv: "reg_inv ord encHandle_zero"
  by (simp add: reg_inv_def encHandle_zero_def)

lemma register_all_inv:
  "reg_inv ord eh \<Longrightarrow> reg_inv ord (register_all ord eh regs)"
  by (induction regs arbitrary: eh) (auto simp: addEncodeExt_inv)

lemma register_all_extFuncs:
  "reg_inv ord eh \<Longrightarrow> distinct (map fst regs) \<Longrightarrow>
   map_of (extFuncs (register_all ord eh regs)) = map_of (extFuncs eh) ++ map_of (map entry regs)"
proof (induction regs arbitrary: eh)
  case Nil
  then show ?case by simp
next
  case (Cons r regs)
  obtain t g f where r: "r = (t, g, f)" by (cases r)
  from Cons.prems have t: "t \<notin> fst ` set regs" and d: "distinct (map fst regs)"
    by (auto simp: r)
  have nd: "t \<notin> dom (map_of (map entry regs))"
    using t by (auto simp: dom_map_of_conv_image_fst entry_def image_iff split: prod.splits)
  have "map_of (extFuncs (register_all ord eh (r # regs)))
          = map_of (extFuncs (addEncodeExt ord eh t g (Some f))) ++ map_of (map entry regs)"
    using Cons.IH [OF addEncodeExt_inv [OF Cons.prems(1)] d] by (simp add: r)
  also have "\<dots> = (map_of (extFuncs eh))(t \<mapsto> \<lparr>fn = Some f, tag = g\<rparr>) ++ map_of (map entry regs)"
    by (simp add: addEncodeExt_extFuncs [OF Cons.prems(1)])
  also have "\<dots> = map_of (extFuncs eh) ++ map_of (map entry (r # regs))"
    using nd by (auto simp: fun_eq_iff map_add_def r entry_def dom_def split: option.splits)
  finally show ?case .
qed

text \<open>C6. Register types \<open>T1..Tk\<close> (pairwise different) with non-nil functions on a fresh
  registry, then register \<open>Tj\<close>, one of them, with the nil function. Whatever order
  \<^verbatim>\<open>range\<close> visits the map in and whatever the threshold between the linear and the
  hashed lookup, the lookup of \<open>Tj\<close> is then not found (tag 0, nil function), the lookup
  of every other \<open>Ti\<close> returns the tag and function it was registered with, and every
  lookup in the fresh registry is not found.\<close>

theorem registry_remove_lookup:
  assumes p: "\<And>m. mset (rangeOrder m) = mset m"
    and d: "distinct (map fst regs)"
    and j: "Tj \<in> fst ` set regs"
  shows "getEncodeExt thr (addEncodeExt rangeOrder (register_all rangeOrder encHandle_zero regs)
                            Tj g None) Tj = (0, None)
       \<and> (\<forall>(t, g', f) \<in> set regs. t \<noteq> Tj \<longrightarrow>
            getEncodeExt thr (addEncodeExt rangeOrder (register_all rangeOrder encHandle_zero regs)
                                Tj g None) t = (g', Some f))
       \<and> getEncodeExt thr encHandle_zero t0 = (0, None)"
proof -
  let ?eh = "register_all rangeOrder encHandle_zero regs"
  let ?eh' = "addEncodeExt rangeOrder ?eh Tj g None"
  have inv: "reg_inv rangeOrder ?eh"
    by (rule register_all_inv [OF encHandle_zero_inv])
  have inv': "reg_inv rangeOrder ?eh'"
    by (rule addEncodeExt_inv [OF inv])
  have m: "map_of (extFuncs ?eh) = map_of (map entry regs)"
    using register_all_extFuncs [OF encHandle_zero_inv d, of rangeOrder]
    by (simp add: encHandle_zero_def)
  have m': "map_of (extFuncs ?eh') = (map_of (map entry regs))(Tj := None)"
    using addEncodeExt_extFuncs [OF inv, of Tj g None] m by simp
  have look: "\<And>t. getEncodeExt thr ?eh' t = found (((map_of (map entry regs))(Tj := None)) t)"
    using getEncodeExt_inv [OF p inv'] m' by simp
  have 1: "getEncodeExt thr ?eh' Tj = (0, None)"
    by (simp add: look found_def)
  have de: "distinct (map fst (map entry regs))"
    using d by (simp add: entry_def comp_def case_prod_beta)
  have 2: "getEncodeExt thr ?eh' t = (g', Some f)" if "(t, g', f) \<in> set regs" "t \<noteq> Tj" for t g' f
  proof -
    from that(1) have "entry (t, g', f) \<in> set (map entry regs)" by force
    then have "map_of (map entry regs) t = Some \<lparr>fn = Some f, tag = g'\<rparr>"
      using de by (simp add: entry_def)
    then show ?thesis using that(2) by (simp add: look found_def)
  qed
  have 3: "getEncodeExt thr encHandle_zero t0 = (0, None)"
    by (simp add: getEncodeExt_def encHandle_zero_def)
  from 1 2 3 show ?thesis by blast
qed

theorem registry_remove_lookup_witness:
  "(\<forall>m :: (rtype \<times> encExtTagFn) list. mset (rev m) = mset m)
   \<and> distinct (map fst regs_example)
   \<and> Predeclared KInt \<in> fst ` set regs_example
   \<and> getEncodeExt 4 (addEncodeExt rev (register_all rev encHandle_zero regs_example)
                        (Predeclared KInt) 0 None) (Predeclared KInt) = (0, None)
   \<and> getEncodeExt 4 (addEncodeExt rev (register_all rev encHandle_zero regs_example)
                        (Predeclared KInt) 0 None) (Predeclared KString) = (2, Some ext_bytes)"
proof -
  have p: "\<And>m :: (rtype \<times> encExtTagFn) list. mset (rev m) = mset m" by simp
  have d: "distinct (map fst regs_example)" by (simp add: regs_example_def)
  have j: "Predeclared KInt \<in> fst ` set regs_example" by (simp add: regs_example_def)
  from registry_remove_lookup [OF p d j, of 4 0] p d j show ?thesis
    by (simp add: regs_example_def)
qed

section \<open>The encoder\<close>

text \<open>
  The wire format \<^verbatim>\<open>e.e\<close> is external: a call of one of its methods is an \<open>event\<close>, and
  an encode yields the sequence of its events, or the panic that aborted it (the events
  before a panic are not kept: the output is then unspecified). Equal event sequences give
  equal bytes, whatever the format. \<open>WriteB\<close> is the one direct write, \<^verbatim>\<open>e.w.writeb(bs)\<close>;
  \<open>EncodeBuiltinType\<close> stands for what the format writes when its hook
  \<^verbatim>\<open>encodeBuiltinType\<close> takes a value over.
\<close>

text \<open>The two constants of \<^verbatim>\<open>charEncoding\<close> that encode.go uses; the type is declared
  outside it.\<close>

datatype charEncoding = c_RAW | c_UTF8

datatype event =
    EncodeBuiltinType rtype rvalue
  | EncodeNil
  | EncodeInt "64 word"
  | EncodeUint "64 word"
  | EncodeBool bool
  | EncodeFloat32 float32
  | EncodeFloat64 float64
  | EncodeExtPreamble byte nat
  | EncodeArrayPreamble nat
  | EncodeMapPreamble nat
  | EncodeString charEncoding string
  | EncodeSymbol string
  | EncodeStringBytes charEncoding "byte list"
  | WriteB "byte list"

text \<open>A field descriptor, as \<^verbatim>\<open>encStruct\<close> reads it: \<^verbatim>\<open>si.encName\<close>, \<^verbatim>\<open>si.omitEmpty\<close>,
  the flat index \<^verbatim>\<open>si.i\<close> and the index path \<^verbatim>\<open>si.is\<close> (first index and rest).\<close>

record structFieldInfo =
  encName :: string
  omitEmpty :: bool
  si_i :: int
  si_is :: "nat \<times> nat list"

text \<open>The \<^verbatim>\<open>Encoder\<close>: the hook of its format \<^verbatim>\<open>e.e\<close>, and of its handle \<^verbatim>\<open>e.h\<close> the
  extension registry and the flag \<^verbatim>\<open>writeExt()\<close>.\<close>

record Encoder =
  encodeBuiltinType :: "rtype \<Rightarrow> rvalue \<Rightarrow> bool"
  h :: encHandle
  writeExt :: bool

text \<open>
  What encode.go uses and does not declare, as parameters: the constant
  \<^verbatim>\<open>mapAccessThreshold\<close> and the functions \<^verbatim>\<open>getStructFieldInfos\<close> and \<^verbatim>\<open>isEmptyValue\<close>.
\<close>

record deps =
  mapAccessThreshold :: nat
  getStructFieldInfos :: "rtype \<Rightarrow> structFieldInfo list"
  isEmptyValue :: "rvalue \<Rightarrow> bool"

text \<open>Modelled from the spec: \<^verbatim>\<open>byteSliceTyp\<close> is declared outside encode.go; the spec
  has the raw byte string for the byte-typed slice, the type \<^verbatim>\<open>[]byte\<close>.\<close>

definition byteSliceTyp :: rtype where
  "byteSliceTyp = SliceOf (Predeclared KUint8)"

text \<open>Modelled from the spec: \<^verbatim>\<open>isEmptyValue\<close> is declared outside encode.go; the spec
  has a value empty when it is boolean false, numeric zero, a nil pointer or interface, or
  an array, slice, map or string of length zero. A floating-point zero is either of the
  two bit patterns of zero.\<close>

fun isEmptyValue_spec :: "rvalue \<Rightarrow> bool" where
  "isEmptyValue_spec (VScalar t (SBool v)) = (\<not> v)"
| "isEmptyValue_spec (VScalar t (SString v)) = (length v = 0)"
| "isEmptyValue_spec (VScalar t (SInt v)) = (v = 0)"
| "isEmptyValue_spec (VScalar t (SInt8 v)) = (v = 0)"
| "isEmptyValue_spec (VScalar t (SInt16 v)) = (v = 0)"
| "isEmptyValue_spec (VScalar t (SInt32 v)) = (v = 0)"
| "isEmptyValue_spec (VScalar t (SInt64 v)) = (v = 0)"
| "isEmptyValue_spec (VScalar t (SUint v)) = (v = 0)"
| "isEmptyValue_spec (VScalar t (SUint8 v)) = (v = 0)"
| "isEmptyValue_spec (VScalar t (SUint16 v)) = (v = 0)"
| "isEmptyValue_spec (VScalar t (SUint32 v)) = (v = 0)"
| "isEmptyValue_spec (VScalar t (SUint64 v)) = (v = 0)"
| "isEmptyValue_spec (VScalar t (SFloat32 v)) = (push_bit 1 v = 0)"
| "isEmptyValue_spec (VScalar t (SFloat64 v)) = (push_bit 1 v = 0)"
| "isEmptyValue_spec (VSliceNil t) = True"
| "isEmptyValue_spec (VSlice t xs) = (length xs = 0)"
| "isEmptyValue_spec (VArray t a xs) = (length xs = 0)"
| "isEmptyValue_spec (VMapNil t) = True"
| "isEmptyValue_spec (VMap t es) = (length es = 0)"
| "isEmptyValue_spec (VPtrNil t) = True"
| "isEmptyValue_spec (VIfaceNil t) = True"
| "isEmptyValue_spec _ = False"

text \<open>Results in sequence: the events of each in order, or the first panic.\<close>

fun seqE :: "(error + 'a list) list \<Rightarrow> error + 'a list" where
  "seqE [] = Inr []"
| "seqE (r # rs) = bindE r (\<lambda>a. bindE (seqE rs) (\<lambda>b. Inr (a @ b)))"

text \<open>The scalar cases of the kind switch of \<^verbatim>\<open>encodeValue\<close> (encode.go:330-337 and
  392-395): \<^verbatim>\<open>rv.Int()\<close> and \<^verbatim>\<open>rv.Uint()\<close> widen to 64 bits, \<^verbatim>\<open>rv.Float()\<close> widens a
  float32 to float64 and the case \<^verbatim>\<open>reflect.Float32\<close> narrows it again.\<close>

fun encode_scalar_kind :: "scalar \<Rightarrow> event" where
  "encode_scalar_kind (SBool v) = EncodeBool v"
| "encode_scalar_kind (SString v) = EncodeString c_UTF8 v"
| "encode_scalar_kind (SFloat64 v) = EncodeFloat64 v"
| "encode_scalar_kind (SFloat32 v) = EncodeFloat32 (float32_of_float64 (float64_of_float32 v))"
| "encode_scalar_kind (SInt v) = EncodeInt v"
| "encode_scalar_kind (SInt8 v) = EncodeInt (scast v)"
| "encode_scalar_kind (SInt16 v) = EncodeInt (scast v)"
| "encode_scalar_kind (SInt32 v) = EncodeInt (scast v)"
| "encode_scalar_kind (SInt64 v) = EncodeInt v"
| "encode_scalar_kind (SUint v) = EncodeUint v"
| "encode_scalar_kind (SUint8 v) = EncodeUint (ucast v)"
| "encode_scalar_kind (SUint16 v) = EncodeUint (ucast v)"
| "encode_scalar_kind (SUint32 v) = EncodeUint (ucast v)"
| "encode_scalar_kind (SUint64 v) = EncodeUint v"

text \<open>The first loop of \<^verbatim>\<open>encStruct\<close> (encode.go:413-425): the state is the two arrays
  and \<^verbatim>\<open>newlen\<close>. The value just stored at \<^verbatim>\<open>rvals[newlen]\<close> is \<open>v\<close>; \<^verbatim>\<open>newlen\<close> stays
  below the length of the arrays.\<close>

definition resolve_field :: "structFieldInfo \<Rightarrow> rvalue \<Rightarrow> error + rvalue" where
  "resolve_field si rv =
     (if si_i si > - 1 then rv_Field rv (nat (si_i si)) else rv_FieldByIndex rv (si_is si))"

fun encStruct_collect ::
  "deps \<Rightarrow> structFieldInfo list \<Rightarrow> rvalue \<Rightarrow> rvalue list \<times> string list \<times> nat
   \<Rightarrow> error + (rvalue list \<times> string list \<times> nat)" where
  "encStruct_collect P [] rv st = Inr st"
| "encStruct_collect P (si # sis) rv (rvals, encnames, newlen) =
     bindE (resolve_field si rv) (\<lambda>v.
       if omitEmpty si \<and> isEmptyValue P v
       then encStruct_collect P sis rv (rvals[newlen := v], encnames, newlen)
       else encStruct_collect P sis rv
              (rvals[newlen := v], encnames[newlen := encName si], newlen + 1))"

subsection \<open>Every recursive call of the encoder is on a smaller value\<close>

lemma bindE_cong [fundef_cong]:
  "m = m' \<Longrightarrow> (\<And>x. m' = Inr x \<Longrightarrow> f x = f' x) \<Longrightarrow> bindE m f = bindE m' f'"
  by (cases m') (simp_all add: bindE_def)

lemma vsize_member: "x \<in> set xs \<Longrightarrow> vsize x \<le> sum_list (map vsize xs)"
  by (induction xs) auto

lemma vsize_nth: "n < length xs \<Longrightarrow> vsize (xs ! n) \<le> sum_list (map vsize xs)"
  by (simp add: vsize_member)

lemma vsize_pair:
  "(k, v) \<in> set es \<Longrightarrow> vsize k + vsize v \<le> (\<Sum>(k, v)\<leftarrow>es. vsize k + vsize v)"
  by (induction es) auto

lemma vsize_map_key: "k \<in> fst ` set es \<Longrightarrow> vsize k < vsize (VMap t es)"
  using vsize_pair by fastforce

lemma vsize_entry: "(k, v) \<in> set es \<Longrightarrow> vsize v < vsize (VMap t es)"
  using vsize_pair by fastforce

lemma vsize_MapIndex: "vsize (rv_MapIndex es k) < vsize (VMap t es)"
proof (cases "find (\<lambda>(k', v). go_eq k' k) es")
  case None
  then show ?thesis by (simp add: rv_MapIndex_def)
next
  case (Some kv)
  obtain k' v where kv: "kv = (k', v)" by (cases kv)
  from Some obtain i where "i < length es" "es ! i = kv" by (auto simp: find_Some_iff)
  then have "kv \<in> set es" using nth_mem by force
  from vsize_entry [OF this [unfolded kv], of t] Some show ?thesis
    by (simp add: rv_MapIndex_def kv)
qed

lemma vsize_Field: "rv_Field rv n = Inr v \<Longrightarrow> vsize v < vsize rv"
  by (cases rv) (auto simp: less_Suc_eq_le vsize_nth split: if_splits)

lemma vsize_FieldByIndex_rest: "rv_FieldByIndex_rest v xs = Inr v' \<Longrightarrow> vsize v' \<le> vsize v"
proof (induction xs arbitrary: v)
  case Nil
  then show ?case by simp
next
  case (Cons x xs)
  let ?u = "case v of VPtr t (VStruct t' fs) \<Rightarrow> VStruct t' fs | _ \<Rightarrow> v"
  from Cons.prems obtain w where w: "rv_Field ?u x = Inr w" "rv_FieldByIndex_rest w xs = Inr v'"
    by (auto simp: bindE_eq_Inr)
  have "vsize ?u \<le> vsize v"
    by (auto split: rvalue.splits)
  with vsize_Field [OF w(1)] Cons.IH [OF w(2)] show ?case by simp
qed

lemma vsize_FieldByIndex: "rv_FieldByIndex rv p = Inr v \<Longrightarrow> vsize v < vsize rv"
  by (auto simp: rv_FieldByIndex_def bindE_eq_Inr dest!: vsize_Field vsize_FieldByIndex_rest)

lemma vsize_resolve_field: "resolve_field si rv = Inr v \<Longrightarrow> vsize v < vsize rv"
  by (auto simp: resolve_field_def dest: vsize_Field vsize_FieldByIndex split: if_splits)

lemma encStruct_collect_sub:
  "encStruct_collect P sis rv (rvals0, names0, n0) = Inr (rvals, names, n) \<Longrightarrow>
   n0 + length sis \<le> length rvals0 \<Longrightarrow>
   (\<forall>j < n0. vsize (rvals0 ! j) < vsize rv) \<Longrightarrow>
   (\<forall>j < n. vsize (rvals ! j) < vsize rv)"
proof (induction sis arbitrary: rvals0 names0 n0)
  case Nil
  then show ?case by simp
next
  case (Cons si sis)
  from Cons.prems(1) obtain v where v: "resolve_field si rv = Inr v"
    by (auto simp: bindE_eq_Inr)
  have lt: "n0 < length rvals0" using Cons.prems(2) by simp
  have sz: "vsize v < vsize rv" by (rule vsize_resolve_field [OF v])
  have pre: "\<forall>j < Suc n0. vsize (rvals0[n0 := v] ! j) < vsize rv"
    using Cons.prems(3) lt sz by (auto simp: nth_list_update less_Suc_eq)
  show ?case
  proof (cases "omitEmpty si \<and> isEmptyValue P v")
    case True
    with Cons.prems(1) v
    have "encStruct_collect P sis rv (rvals0[n0 := v], names0, n0) = Inr (rvals, names, n)"
      by simp
    moreover have "n0 + length sis \<le> length (rvals0[n0 := v])"
      using Cons.prems(2) by simp
    moreover have "\<forall>j<n0. vsize (rvals0[n0 := v] ! j) < vsize rv"
      using Cons.prems(3) by simp
    ultimately show ?thesis by (rule Cons.IH)
  next
    case False
    with Cons.prems(1) v
    have "encStruct_collect P sis rv (rvals0[n0 := v], names0[n0 := encName si], n0 + 1)
            = Inr (rvals, names, n)"
      by auto
    moreover have "n0 + 1 + length sis \<le> length (rvals0[n0 := v])"
      using Cons.prems(2) by simp
    moreover have "\<forall>j<n0 + 1. vsize (rvals0[n0 := v] ! j) < vsize rv"
      using pre by simp
    ultimately show ?thesis by (rule Cons.IH)
  qed
qed

subsection \<open>encodeValue and encStruct\<close>

text \<open>
  \<^verbatim>\<open>encodeValue\<close> (encode.go:300) and \<^verbatim>\<open>encStruct\<close> (encode.go:404).
  \<open>encodeValue_switch\<close> is the statement \<^verbatim>\<open>switch rk\<close> of \<^verbatim>\<open>encodeValue\<close>
  (encode.go:329-400), with the kind of the value read off its constructor.
\<close>

function encodeValue :: "deps \<Rightarrow> Encoder \<Rightarrow> rvalue \<Rightarrow> error + event list"
  and encodeValue_switch :: "deps \<Rightarrow> Encoder \<Rightarrow> rtype \<Rightarrow> rvalue \<Rightarrow> error + event list"
  and encStruct :: "deps \<Rightarrow> Encoder \<Rightarrow> rtype \<Rightarrow> rvalue \<Rightarrow> error + event list"
where
  "encodeValue P E rv =
     (case rv_Type rv of
        None \<Rightarrow> Inl (ReflectPanic ''reflect: call of reflect.Value.Type on zero Value'')
      | Some t \<Rightarrow>
          if encodeBuiltinType E t rv then Inr [EncodeBuiltinType t rv]
          else (case getEncodeExt (mapAccessThreshold P) (h E) t of
                  (xfTag, Some xfFn) \<Rightarrow>
                    (case xfFn rv of
                       (bs, Some fnerr) \<Rightarrow> Inl (ExtFnError fnerr)
                     | (None, None) \<Rightarrow> Inr [EncodeNil]
                     | (Some bs, None) \<Rightarrow>
                         if writeExt E then Inr [EncodeExtPreamble xfTag (length bs), WriteB bs]
                         else Inr [EncodeStringBytes c_RAW bs])
                | (xfTag, None) \<Rightarrow> encodeValue_switch P E t rv))"
| "encodeValue_switch P E t (VScalar t' s) = Inr [encode_scalar_kind s]"
| "encodeValue_switch P E t (VSliceNil t') = Inr [EncodeNil]"
| "encodeValue_switch P E t (VSlice t' xs) =
     (if t = byteSliceTyp then
        (case rv_Bytes xs of
           None \<Rightarrow> Inl (ReflectPanic ''reflect.Value.Bytes of non-byte slice'')
         | Some bs \<Rightarrow> Inr [EncodeStringBytes c_RAW bs])
      else bindE (seqE (map (\<lambda>x. encodeValue P E x) xs))
                 (\<lambda>evs. Inr (EncodeArrayPreamble (length xs) # evs)))"
| "encodeValue_switch P E t (VArray t' addr xs) =
     (if \<not> addr then Inl (ReflectPanic ''reflect.Value.Slice: slice of unaddressable array'')
      else case type_Elem t of
             None \<Rightarrow> Inl (ReflectPanic ''reflect: Elem of invalid type'')
           | Some et \<Rightarrow> encodeValue P E (VSlice (SliceOf et) xs))"
| "encodeValue_switch P E t (VMapNil t') = Inr [EncodeNil]"
| "encodeValue_switch P E t (VMap t' es) =
     (if length es = 0 then Inr [EncodeMapPreamble (length es)]
      else case type_Key t of
             None \<Rightarrow> Inl (ReflectPanic ''reflect: Key of non-map type'')
           | Some kt \<Rightarrow>
               bindE (seqE (map (\<lambda>k.
                        bindE (if type_Kind kt = KString then
                                 (case rv_String k of
                                    None \<Rightarrow> Inl (ReflectPanic ''reflect: key of kind string holds no string'')
                                  | Some s \<Rightarrow> Inr [EncodeSymbol s])
                               else encodeValue P E k)
                          (\<lambda>kevs. bindE (encodeValue P E (rv_MapIndex es k))
                             (\<lambda>vevs. Inr (kevs @ vevs))))
                      (map fst es)))
                 (\<lambda>evs. Inr (EncodeMapPreamble (length es) # evs)))"
| "encodeValue_switch P E t (VStruct t' fs) = encStruct P E t (VStruct t' fs)"
| "encodeValue_switch P E t (VPtrNil t') = Inr [EncodeNil]"
| "encodeValue_switch P E t (VPtr t' v) = encodeValue P E v"
| "encodeValue_switch P E t (VIfaceNil t') = Inr [EncodeNil]"
| "encodeValue_switch P E t (VIface t' v) = encodeValue P E v"
| "encodeValue_switch P E t VInvalid = Inr [EncodeNil]"
| "encodeValue_switch P E t (VOther t') = Inl (UnsupportedKind ''Unsupported kind'')"
| "encStruct P E t rv =
     (case encStruct_collect P (getStructFieldInfos P t) rv
             (replicate (length (getStructFieldInfos P t)) VInvalid,
              replicate (length (getStructFieldInfos P t)) [], 0) of
        Inl err \<Rightarrow> Inl err
      | Inr (rvals, encnames, newlen) \<Rightarrow>
          bindE (seqE (map (\<lambda>j. bindE (encodeValue P E (rvals ! j))
                                  (\<lambda>evs. Inr (EncodeSymbol (encnames ! j) # evs)))
                        [0..<newlen]))
                (\<lambda>evs. Inr (EncodeMapPreamble newlen # evs)))"
  by pat_completeness auto
termination
proof (relation "measure (\<lambda>x. case x of
          Inl (P, E, rv) \<Rightarrow> 3 * vsize rv + 2
        | Inr (Inl (P, E, t, rv)) \<Rightarrow> 3 * vsize rv + 1
        | Inr (Inr (P, E, t, rv)) \<Rightarrow> 3 * vsize rv)", goal_cases)
  case 1
  show ?case by simp
next
  case 2
  then show ?case by simp
next
  case (3 P E t t' xs x)
  then show ?case using vsize_member [of x xs] by simp
next
  case 4
  then show ?case by simp
next
  case (5 P E t t' es kt k)
  then show ?case using vsize_map_key [of k es t'] by auto
next
  case (6 P E t t' es kt k)
  then show ?case using vsize_MapIndex [of es k t'] by simp
next
  case 7
  then show ?case by simp
next
  case 8
  then show ?case by simp
next
  case 9
  then show ?case by simp
next
  case (10 P E t rv st rvals rest encnames newlen j)
  then have "encStruct_collect P (getStructFieldInfos P t) rv
             (replicate (length (getStructFieldInfos P t)) VInvalid,
              replicate (length (getStructFieldInfos P t)) [], 0) = Inr (rvals, encnames, newlen)"
    by simp
  from encStruct_collect_sub [OF this] have "\<forall>j<newlen. vsize (rvals ! j) < vsize rv"
    by simp
  moreover from 10 have "j < newlen" by simp
  ultimately have "vsize (rvals ! j) < vsize rv" by blast
  then show ?case by simp
qed

subsection \<open>encode and Encode\<close>

text \<open>
  The dynamic type of the \<^verbatim>\<open>interface{}\<close> handed to \<^verbatim>\<open>encode\<close>, as its type switch
  (encode.go:229) tells it apart: the nil interface, a \<^verbatim>\<open>reflect.Value\<close>, a value of one
  of the fourteen predeclared scalar types, a non-nil pointer to one (given by what it
  points to), a nil pointer to the predeclared type of a kind, and everything else, given
  by \<^verbatim>\<open>reflect.ValueOf(iv)\<close>.
\<close>

datatype iface =
    INil
  | IValue rvalue
  | IPrim scalar
  | IPrimPtr scalar
  | IPrimPtrNil kind
  | IOther rvalue

definition prim_kinds :: "kind list" where
  "prim_kinds = [KString, KBool, KInt, KInt8, KInt16, KInt32, KInt64,
                 KUint, KUint8, KUint16, KUint32, KUint64, KFloat32, KFloat64]"

text \<open>The fourteen scalar cases of the type switch (encode.go:236-263).\<close>

fun encode_prim :: "scalar \<Rightarrow> event" where
  "encode_prim (SString v) = EncodeString c_UTF8 v"
| "encode_prim (SBool v) = EncodeBool v"
| "encode_prim (SInt v) = EncodeInt v"
| "encode_prim (SInt8 v) = EncodeInt (scast v)"
| "encode_prim (SInt16 v) = EncodeInt (scast v)"
| "encode_prim (SInt32 v) = EncodeInt (scast v)"
| "encode_prim (SInt64 v) = EncodeInt v"
| "encode_prim (SUint v) = EncodeUint v"
| "encode_prim (SUint8 v) = EncodeUint (ucast v)"
| "encode_prim (SUint16 v) = EncodeUint (ucast v)"
| "encode_prim (SUint32 v) = EncodeUint (ucast v)"
| "encode_prim (SUint64 v) = EncodeUint v"
| "encode_prim (SFloat32 v) = EncodeFloat32 v"
| "encode_prim (SFloat64 v) = EncodeFloat64 v"

text \<open>\<^verbatim>\<open>encode\<close> (encode.go:228). The pointer cases dereference without a nil check:
  \<^verbatim>\<open>*v\<close> of a nil pointer panics.\<close>

fun encode :: "deps \<Rightarrow> Encoder \<Rightarrow> iface \<Rightarrow> error + event list" where
  "encode P E INil = Inr [EncodeNil]"
| "encode P E (IValue v) = encodeValue P E v"
| "encode P E (IPrim s) = Inr [encode_prim s]"
| "encode P E (IPrimPtr s) = Inr [encode_prim s]"
| "encode P E (IPrimPtrNil k) =
     (if k \<in> set prim_kinds then Inl NilPointerDereference
      else encodeValue P E (VPtrNil (PtrTo (Predeclared k))))"
| "encode P E (IOther v) = encodeValue P E v"

text \<open>\<^verbatim>\<open>Encode\<close> (encode.go:221): \<^verbatim>\<open>encode\<close>, then the flush of the sink, which is no
  call of the format; a panic comes back as the error.\<close>

definition Encode :: "deps \<Rightarrow> Encoder \<Rightarrow> iface \<Rightarrow> error + event list" where
  "Encode P E v = encode P E v"

text \<open>\<^verbatim>\<open>reflect.TypeOf\<close> and \<^verbatim>\<open>reflect.ValueOf\<close> of a value of a predeclared scalar type.\<close>

fun scalar_Kind :: "scalar \<Rightarrow> kind" where
  "scalar_Kind (SString v) = KString"
| "scalar_Kind (SBool v) = KBool"
| "scalar_Kind (SInt v) = KInt"
| "scalar_Kind (SInt8 v) = KInt8"
| "scalar_Kind (SInt16 v) = KInt16"
| "scalar_Kind (SInt32 v) = KInt32"
| "scalar_Kind (SInt64 v) = KInt64"
| "scalar_Kind (SUint v) = KUint"
| "scalar_Kind (SUint8 v) = KUint8"
| "scalar_Kind (SUint16 v) = KUint16"
| "scalar_Kind (SUint32 v) = KUint32"
| "scalar_Kind (SUint64 v) = KUint64"
| "scalar_Kind (SFloat32 v) = KFloat32"
| "scalar_Kind (SFloat64 v) = KFloat64"

definition TypeOf :: "scalar \<Rightarrow> rtype" where
  "TypeOf s = Predeclared (scalar_Kind s)"

definition ValueOf :: "scalar \<Rightarrow> rvalue" where
  "ValueOf s = VScalar (TypeOf s) s"

text \<open>A value reaches the kind switch of \<^verbatim>\<open>encodeValue\<close> when the hook of the format
  declines it and no extension function is registered for its type.\<close>

definition reaches_switch :: "deps \<Rightarrow> Encoder \<Rightarrow> rvalue \<Rightarrow> bool" where
  "reaches_switch P E rv =
     (case rv_Type rv of
        None \<Rightarrow> False
      | Some t \<Rightarrow> \<not> encodeBuiltinType E t rv
                  \<and> snd (getEncodeExt (mapAccessThreshold P) (h E) t) = None)"

text \<open>Examples: parameters with the spec's emptiness, an encoder without extensions, and
  one with the registry of \<open>regs_example\<close>.\<close>

definition deps_example :: deps where
  "deps_example = \<lparr>mapAccessThreshold = 4, getStructFieldInfos = (\<lambda>t. []),
                    isEmptyValue = isEmptyValue_spec\<rparr>"

definition Encoder_plain :: Encoder where
  "Encoder_plain = \<lparr>encodeBuiltinType = (\<lambda>t v. False), h = encHandle_zero, writeExt = True\<rparr>"

definition Encoder_exts :: Encoder where
  "Encoder_exts = \<lparr>encodeBuiltinType = (\<lambda>t v. False),
                    h = register_all rev encHandle_zero regs_example, writeExt = True\<rparr>"

text \<open>The filtered projection of \<^verbatim>\<open>encStruct\<close> in the spec's words: of the descriptors
  paired with the resolved field values, in order, those are kept that do not have the
  omit-empty flag set together with an empty value.\<close>

definition kept_fields ::
  "deps \<Rightarrow> structFieldInfo list \<Rightarrow> rvalue list \<Rightarrow> (structFieldInfo \<times> rvalue) list" where
  "kept_fields P sis vals =
     filter (\<lambda>(si, v). \<not> (omitEmpty si \<and> isEmptyValue P v)) (zip sis vals)"

text \<open>Further examples: a byte slice, a map whose key type is a defined string type, a
  map with a NaN key, a map with integer keys, and a struct with three fields, the last two with the omit-empty
  flag and the last resolved by its index path.\<close>

definition uint8_values :: "byte list \<Rightarrow> rvalue list" where
  "uint8_values bs = map (\<lambda>x. VScalar (Predeclared KUint8) (SUint8 x)) bs"

definition sym_type :: rtype where
  "sym_type = Named ''Sym'' (Predeclared KString)"

definition map_sym :: rvalue where
  "map_sym = VMap (MapOf sym_type (Predeclared KInt))
               [(VScalar sym_type (SString ''a''), VScalar (Predeclared KInt) (SInt 1))]"

definition map_nan :: rvalue where
  "map_nan = VMap (MapOf (Predeclared KFloat64) (Predeclared KInt))
               [(VScalar (Predeclared KFloat64) (SFloat64 0x7FF8000000000001),
                 VScalar (Predeclared KInt) (SInt 1))]"

definition map_int :: rvalue where
  "map_int = VMap (MapOf (Predeclared KInt8) (Predeclared KBool))
               [(VScalar (Predeclared KInt8) (SInt8 7), VScalar (Predeclared KBool) (SBool True)),
                (VScalar (Predeclared KInt8) (SInt8 3), VScalar (Predeclared KBool) (SBool False))]"

definition sis_example :: "structFieldInfo list" where
  "sis_example =
     [\<lparr>encName = ''A'', omitEmpty = False, si_i = 0, si_is = (0, [])\<rparr>,
      \<lparr>encName = ''B'', omitEmpty = True, si_i = 1, si_is = (0, [])\<rparr>,
      \<lparr>encName = ''C'', omitEmpty = True, si_i = - 1, si_is = (2, [])\<rparr>]"

definition deps_struct :: deps where
  "deps_struct = deps_example\<lparr>getStructFieldInfos := (\<lambda>t. sis_example)\<rparr>"

definition struct_fields :: "rvalue list" where
  "struct_fields = [VScalar (Predeclared KInt) (SInt 0), VScalar (Predeclared KString) (SString []),
                    VScalar (Predeclared KBool) (SBool True)]"

section \<open>Properties of the encoder\<close>

declare encodeValue.simps [simp del] encStruct.simps [simp del]

lemma encodeValue_reaches:
  assumes "reaches_switch P E rv" and "rv_Type rv = Some t"
  shows "encodeValue P E rv = encodeValue_switch P E t rv"
proof -
  from assms have hook: "\<not> encodeBuiltinType E t rv"
    and ext: "snd (getEncodeExt (mapAccessThreshold P) (h E) t) = None"
    by (simp_all add: reaches_switch_def)
  obtain g where "getEncodeExt (mapAccessThreshold P) (h E) t = (g, None)"
    using ext by (cases "getEncodeExt (mapAccessThreshold P) (h E) t") simp
  with hook assms(2) show ?thesis
    by (simp add: encodeValue.simps)
qed

lemma seqE_all_Inr:
  "(\<forall>x \<in> set xs. f x = Inr (g x)) \<Longrightarrow> seqE (map f xs) = Inr (concat (map g xs))"
  by (induction xs) simp_all

lemma Encoder_plain_reaches: "rv_Type rv \<noteq> None \<Longrightarrow> reaches_switch P Encoder_plain rv"
  by (auto simp: reaches_switch_def Encoder_plain_def getEncodeExt_def encHandle_zero_def
           split: option.splits)

lemma Encoder_plain_scalar:
  "encodeValue P Encoder_plain (VScalar t s) = Inr [encode_scalar_kind s]"
  using encodeValue_reaches [OF Encoder_plain_reaches, of "VScalar t s" t P] by simp

lemma Encoder_exts_lookup:
  "getEncodeExt 4 (h Encoder_exts) (Predeclared KInt) = (1, Some ext_nil)"
  "getEncodeExt 4 (h Encoder_exts) (Predeclared KString) = (2, Some ext_bytes)"
  "getEncodeExt 4 (h Encoder_exts) (Predeclared KBool) = (3, Some ext_fails)"
  by (simp_all add: Encoder_exts_def regs_example_def addEncodeExt_def encHandle_zero_def
        getEncodeExt_def Let_def)

subsection \<open>The fast path and the kind switch\<close>

lemma encode_prim_kind:
  assumes "\<forall>x. s = SFloat32 x \<longrightarrow> \<not> signalling_NaN32 x"
  shows "encode_scalar_kind s = encode_prim s"
  using assms by (cases s) (simp_all add: float32_roundtrip)

lemma float32_quieted:
  "float32_of_float64 (float64_of_float32 0x7FA00000) = 0x7FE00000"
  by (simp add: float32_of_float64_def float64_of_float32_def unpack_def pack_def
        widen_fields_def narrow_fields_def quiet_def)

text \<open>C1, as the specification states it, fails for a float32 that is a signalling NaN:
  the fast path hands the value \<open>0x7FA00000\<close> to the format untouched, the kind switch
  hands it \<^verbatim>\<open>float32(rv.Float())\<close>, and the conversion to float64 and back sets the
  quiet bit, so the format receives \<open>0x7FE00000\<close>.\<close>

theorem fast_path_differs_at_signalling_NaN:
  "signalling_NaN32 0x7FA00000
   \<and> encode deps_example Encoder_plain (IPrim (SFloat32 0x7FA00000))
       = Inr [EncodeFloat32 0x7FA00000]
   \<and> encodeValue_switch deps_example Encoder_plain (TypeOf (SFloat32 0x7FA00000))
        (ValueOf (SFloat32 0x7FA00000)) = Inr [EncodeFloat32 0x7FE00000]
   \<and> encodeValue deps_example Encoder_plain (ValueOf (SFloat32 0x7FA00000))
       = Inr [EncodeFloat32 0x7FE00000]
   \<and> encode deps_example Encoder_plain (IPrim (SFloat32 0x7FA00000))
       \<noteq> encodeValue deps_example Encoder_plain (ValueOf (SFloat32 0x7FA00000))"
proof -
  have 1: "signalling_NaN32 0x7FA00000"
    by (simp add: signalling_NaN32_def unpack_def)
  have 2: "encode deps_example Encoder_plain (IPrim (SFloat32 0x7FA00000))
             = Inr [EncodeFloat32 0x7FA00000]"
    by simp
  have 3: "encodeValue_switch deps_example Encoder_plain (TypeOf (SFloat32 0x7FA00000))
             (ValueOf (SFloat32 0x7FA00000)) = Inr [EncodeFloat32 0x7FE00000]"
    by (simp add: ValueOf_def float32_quieted)
  have 4: "encodeValue deps_example Encoder_plain (ValueOf (SFloat32 0x7FA00000))
             = Inr [EncodeFloat32 0x7FE00000]"
    by (simp add: ValueOf_def Encoder_plain_scalar float32_quieted)
  have 5: "encode deps_example Encoder_plain (IPrim (SFloat32 0x7FA00000))
             \<noteq> encodeValue deps_example Encoder_plain (ValueOf (SFloat32 0x7FA00000))"
    unfolding 2 4 by simp
  from 1 2 3 4 5 show ?thesis by blast
qed

text \<open>C1, amended: for every value of the fourteen predeclared scalar types other than a
  float32 signalling NaN, the fast path of \<^verbatim>\<open>encode\<close> yields the events the kind switch
  of \<^verbatim>\<open>encodeValue\<close> yields for the same value, and so the events of \<^verbatim>\<open>encodeValue\<close>
  itself whenever the value reaches that switch (the format's hook declines it and no
  extension is registered for its type).\<close>

theorem fast_path_eq_kind_dispatch:
  assumes "\<forall>x. s = SFloat32 x \<longrightarrow> \<not> signalling_NaN32 x"
  shows "encode P E (IPrim s) = encodeValue_switch P E (TypeOf s) (ValueOf s)
       \<and> (reaches_switch P E (ValueOf s) \<longrightarrow> encode P E (IPrim s) = encodeValue P E (ValueOf s))"
proof -
  have 1: "encode P E (IPrim s) = encodeValue_switch P E (TypeOf s) (ValueOf s)"
    using encode_prim_kind [OF assms] by (simp add: ValueOf_def)
  have "rv_Type (ValueOf s) = Some (TypeOf s)"
    by (simp add: ValueOf_def)
  then have "encodeValue P E (ValueOf s) = encodeValue_switch P E (TypeOf s) (ValueOf s)"
    if "reaches_switch P E (ValueOf s)"
    using that by (rule encodeValue_reaches [rotated])
  with 1 show ?thesis by simp
qed

theorem fast_path_eq_kind_dispatch_witness:
  "\<not> signalling_NaN32 0x40490FDB
   \<and> reaches_switch deps_example Encoder_plain (ValueOf (SFloat32 0x40490FDB))
   \<and> encode deps_example Encoder_plain (IPrim (SFloat32 0x40490FDB))
       = encodeValue deps_example Encoder_plain (ValueOf (SFloat32 0x40490FDB))
   \<and> encode deps_example Encoder_plain (IPrim (SFloat32 0x40490FDB)) = Inr [EncodeFloat32 0x40490FDB]
   \<and> encode deps_example Encoder_plain (IPrim (SInt8 (- 3)))
       = encodeValue deps_example Encoder_plain (ValueOf (SInt8 (- 3)))"
proof -
  have n: "\<not> signalling_NaN32 0x40490FDB"
    by (simp add: signalling_NaN32_def unpack_def)
  then have f: "\<forall>x. SFloat32 0x40490FDB = SFloat32 x \<longrightarrow> \<not> signalling_NaN32 x"
    by simp
  have g: "\<forall>x. SInt8 (- 3) = SFloat32 x \<longrightarrow> \<not> signalling_NaN32 x"
    by simp
  have r: "reaches_switch deps_example Encoder_plain (ValueOf (SFloat32 0x40490FDB))"
          "reaches_switch deps_example Encoder_plain (ValueOf (SInt8 (- 3)))"
    by (simp_all add: Encoder_plain_reaches ValueOf_def)
  have e: "encode deps_example Encoder_plain (IPrim (SFloat32 0x40490FDB))
             = encodeValue deps_example Encoder_plain (ValueOf (SFloat32 0x40490FDB))"
    using fast_path_eq_kind_dispatch [OF f, of deps_example Encoder_plain] r(1) by blast
  have e': "encode deps_example Encoder_plain (IPrim (SInt8 (- 3)))
             = encodeValue deps_example Encoder_plain (ValueOf (SInt8 (- 3)))"
    using fast_path_eq_kind_dispatch [OF g, of deps_example Encoder_plain] r(2) by blast
  have v: "encode deps_example Encoder_plain (IPrim (SFloat32 0x40490FDB))
             = Inr [EncodeFloat32 0x40490FDB]"
    by simp
  from n r(1) e v e' show ?thesis by blast
qed

subsection \<open>Nil values\<close>

text \<open>C2 does not hold for a typed nil pointer to a scalar: \<^verbatim>\<open>Encode\<close> of a nil
  \<^verbatim>\<open>*int\<close> or \<^verbatim>\<open>*string\<close> takes the case \<^verbatim>\<open>*int\<close> or \<^verbatim>\<open>*string\<close> of the type switch, which
  dereferences the pointer; the encode aborts with the nil-dereference panic, and no nil
  marker is emitted.\<close>

theorem encode_nil_scalar_pointer_panics:
  "Encode P E (IPrimPtrNil KInt) = Inl NilPointerDereference
   \<and> Encode P E (IPrimPtrNil KString) = Inl NilPointerDereference
   \<and> Encode P E (IPrimPtrNil KInt) \<noteq> Inr [EncodeNil]"
  by (simp add: Encode_def prim_kinds_def)

text \<open>The other nil values do yield exactly the nil marker: the nil interface, and a nil
  slice, map, pointer or interface that reaches the kind switch.\<close>

lemma encodeValue_nil_marker:
  assumes "reaches_switch P E rv"
    and "rv = VSliceNil t \<or> rv = VMapNil t \<or> rv = VPtrNil t \<or> rv = VIfaceNil t"
  shows "encodeValue P E rv = Inr [EncodeNil]"
proof -
  from assms(2) have "rv_Type rv = Some t" by auto
  from encodeValue_reaches [OF assms(1) this] assms(2) show ?thesis by auto
qed

lemma Encode_nil_interface: "Encode P E INil = Inr [EncodeNil]"
  by (simp add: Encode_def)

subsection \<open>The extension override\<close>

text \<open>C7. When the format's hook declines a value and the registry holds a function for
  its type, \<^verbatim>\<open>encodeValue\<close> calls the function on the value: an error it returns aborts
  the encode and is the error returned; a nil payload without error yields the nil marker;
  any other payload yields the extension preamble with the tag and the payload's length
  followed by the payload written raw when \<^verbatim>\<open>writeExt()\<close> holds, and otherwise the
  payload as a raw byte string.\<close>

theorem extension_override:
  assumes "rv_Type rv = Some t"
    and "\<not> encodeBuiltinType E t rv"
    and "getEncodeExt (mapAccessThreshold P) (h E) t = (xfTag, Some xfFn)"
  shows "(\<forall>bs msg. xfFn rv = (bs, Some msg) \<longrightarrow> encodeValue P E rv = Inl (ExtFnError msg))
       \<and> (xfFn rv = (None, None) \<longrightarrow> encodeValue P E rv = Inr [EncodeNil])
       \<and> (\<forall>bs. xfFn rv = (Some bs, None) \<longrightarrow>
            encodeValue P E rv =
              (if writeExt E then Inr [EncodeExtPreamble xfTag (length bs), WriteB bs]
               else Inr [EncodeStringBytes c_RAW bs]))"
  using assms by (auto simp: encodeValue.simps split: option.splits)

theorem extension_override_witness:
  "encodeValue deps_example Encoder_exts (VScalar (Predeclared KString) (SString ''x''))
     = Inr [EncodeExtPreamble 2 3, WriteB [1, 2, 3]]
   \<and> encodeValue deps_example (Encoder_exts\<lparr>writeExt := False\<rparr>)
        (VScalar (Predeclared KString) (SString ''x''))
     = Inr [EncodeStringBytes c_RAW [1, 2, 3]]
   \<and> encodeValue deps_example Encoder_exts (VScalar (Predeclared KInt) (SInt 5)) = Inr [EncodeNil]
   \<and> encodeValue deps_example Encoder_exts (VScalar (Predeclared KBool) (SBool True))
     = Inl (ExtFnError ''no encoding'')"
proof -
  let ?P = deps_example
  have thr: "mapAccessThreshold ?P = 4" by (simp add: deps_example_def)
  have hk: "\<not> encodeBuiltinType Encoder_exts t v" "\<not> encodeBuiltinType (Encoder_exts\<lparr>writeExt := False\<rparr>) t v"
    for t v by (simp_all add: Encoder_exts_def)
  have 1: "encodeValue ?P Encoder_exts (VScalar (Predeclared KString) (SString ''x''))
             = Inr [EncodeExtPreamble 2 3, WriteB [1, 2, 3]]"
    using extension_override [of "VScalar (Predeclared KString) (SString ''x'')"
            "Predeclared KString" Encoder_exts ?P 2 ext_bytes] hk Encoder_exts_lookup(2)
    by (simp add: thr ext_bytes_def Encoder_exts_def)
  have 2: "encodeValue ?P (Encoder_exts\<lparr>writeExt := False\<rparr>) (VScalar (Predeclared KString) (SString ''x''))
             = Inr [EncodeStringBytes c_RAW [1, 2, 3]]"
    using extension_override [of "VScalar (Predeclared KString) (SString ''x'')"
            "Predeclared KString" "Encoder_exts\<lparr>writeExt := False\<rparr>" ?P 2 ext_bytes] hk Encoder_exts_lookup(2)
    by (simp add: thr ext_bytes_def)
  have 3: "encodeValue ?P Encoder_exts (VScalar (Predeclared KInt) (SInt 5)) = Inr [EncodeNil]"
    using extension_override [of "VScalar (Predeclared KInt) (SInt 5)"
            "Predeclared KInt" Encoder_exts ?P 1 ext_nil] hk Encoder_exts_lookup(1)
    by (simp add: thr ext_nil_def)
  have 4: "encodeValue ?P Encoder_exts (VScalar (Predeclared KBool) (SBool True))
             = Inl (ExtFnError ''no encoding'')"
    using extension_override [of "VScalar (Predeclared KBool) (SBool True)"
            "Predeclared KBool" Encoder_exts ?P 3 ext_fails] hk Encoder_exts_lookup(3)
    by (simp add: thr ext_fails_def)
  from 1 2 3 4 show ?thesis by blast
qed

subsection \<open>Slices of bytes\<close>

text \<open>C10. Of the non-nil slices that reach the kind switch, one whose type is exactly
  \<^verbatim>\<open>[]byte\<close> is encoded as a single raw byte string of its bytes; one of any other type
  is encoded as the array preamble with its length followed by the events of its elements
  in order. A defined type with underlying type \<^verbatim>\<open>[]byte\<close> is such another type,
  though its kind is slice and its elements are bytes.\<close>

theorem byte_slice_raw_only_exact_type:
  assumes "reaches_switch P E (VSlice t xs)"
  shows "(t = byteSliceTyp \<longrightarrow>
            (\<forall>bs. rv_Bytes xs = Some bs \<longrightarrow>
               encodeValue P E (VSlice t xs) = Inr [EncodeStringBytes c_RAW bs]))
       \<and> (t \<noteq> byteSliceTyp \<longrightarrow>
            (\<forall>ev. (\<forall>x \<in> set xs. encodeValue P E x = Inr (ev x)) \<longrightarrow>
               encodeValue P E (VSlice t xs)
                 = Inr (EncodeArrayPreamble (length xs) # concat (map ev xs))))
       \<and> Named n byteSliceTyp \<noteq> byteSliceTyp
       \<and> type_Kind (Named n byteSliceTyp) = KSlice
       \<and> type_Elem (Named n byteSliceTyp) = Some (Predeclared KUint8)"
proof -
  have sw: "encodeValue P E (VSlice t xs) = encodeValue_switch P E t (VSlice t xs)"
    by (rule encodeValue_reaches [OF assms]) simp
  have 1: "encodeValue P E (VSlice t xs) = Inr [EncodeStringBytes c_RAW bs]"
    if "t = byteSliceTyp" "rv_Bytes xs = Some bs" for bs
    unfolding sw using that by simp
  have 2: "encodeValue P E (VSlice t xs) = Inr (EncodeArrayPreamble (length xs) # concat (map ev xs))"
    if "t \<noteq> byteSliceTyp" "\<forall>x \<in> set xs. encodeValue P E x = Inr (ev x)" for ev
    unfolding sw using that(1) seqE_all_Inr [OF that(2)] by simp
  have 3: "Named n byteSliceTyp \<noteq> byteSliceTyp" "type_Kind (Named n byteSliceTyp) = KSlice"
    "type_Elem (Named n byteSliceTyp) = Some (Predeclared KUint8)"
    by (simp_all add: byteSliceTyp_def)
  from 1 2 3 show ?thesis by blast
qed

theorem byte_slice_raw_only_exact_type_witness:
  "reaches_switch deps_example Encoder_plain (VSlice byteSliceTyp (uint8_values [1, 2]))
   \<and> rv_Bytes (uint8_values [1, 2]) = Some [1, 2]
   \<and> encodeValue deps_example Encoder_plain (VSlice byteSliceTyp (uint8_values [1, 2]))
       = Inr [EncodeStringBytes c_RAW [1, 2]]
   \<and> reaches_switch deps_example Encoder_plain
        (VSlice (Named ''Blob'' byteSliceTyp) (uint8_values [1, 2]))
   \<and> Named ''Blob'' byteSliceTyp \<noteq> byteSliceTyp
   \<and> encodeValue deps_example Encoder_plain
        (VSlice (Named ''Blob'' byteSliceTyp) (uint8_values [1, 2]))
       = Inr [EncodeArrayPreamble 2, EncodeUint 1, EncodeUint 2]"
proof -
  let ?P = deps_example and ?E = Encoder_plain
  let ?ev = "\<lambda>v. case v of VScalar t s \<Rightarrow> [encode_scalar_kind s] | _ \<Rightarrow> []"
  have r1: "reaches_switch ?P ?E (VSlice byteSliceTyp (uint8_values [1, 2]))"
    and r2: "reaches_switch ?P ?E (VSlice (Named ''Blob'' byteSliceTyp) (uint8_values [1, 2]))"
    by (simp_all add: Encoder_plain_reaches)
  have b: "rv_Bytes (uint8_values [1, 2]) = Some [1, 2]"
    by (simp add: uint8_values_def)
  have ne: "Named ''Blob'' byteSliceTyp \<noteq> byteSliceTyp"
    by (simp add: byteSliceTyp_def)
  have el: "\<forall>x \<in> set (uint8_values [1, 2]). encodeValue ?P ?E x = Inr (?ev x)"
    by (simp add: uint8_values_def Encoder_plain_scalar)
  have 1: "encodeValue ?P ?E (VSlice byteSliceTyp (uint8_values [1, 2]))
             = Inr [EncodeStringBytes c_RAW [1, 2]]"
    using byte_slice_raw_only_exact_type [OF r1] b by blast
  have "encodeValue ?P ?E (VSlice (Named ''Blob'' byteSliceTyp) (uint8_values [1, 2]))
          = Inr (EncodeArrayPreamble (length (uint8_values [1, 2]))
                 # concat (map ?ev (uint8_values [1, 2])))"
    using byte_slice_raw_only_exact_type [OF r2] ne el by blast
  then have 2: "encodeValue ?P ?E (VSlice (Named ''Blob'' byteSliceTyp) (uint8_values [1, 2]))
          = Inr [EncodeArrayPreamble 2, EncodeUint 1, EncodeUint 2]"
    by (simp add: uint8_values_def)
  from r1 r2 b ne 1 2 show ?thesis by blast
qed

subsection \<open>Map keys\<close>

lemma scalar_eq_right: "scalar_eq s s' \<Longrightarrow> scalar_eq s' s'"
  by (cases s; cases s') (auto simp: float32_eq_def float64_eq_def)

lemma go_eq_right:
  "go_eq v w \<Longrightarrow> go_eq w w"
  "go_eq_list xs ys \<Longrightarrow> go_eq_list ys ys"
  by (induction v w and xs ys rule: go_eq_go_eq_list.induct)
     (auto split: rvalue.splits list.splits dest: scalar_eq_right)

lemma MapIndex_found:
  "keys_differ (map fst es) \<Longrightarrow> (k, v) \<in> set es \<Longrightarrow> go_eq k k \<Longrightarrow> rv_MapIndex es k = v"
proof (induction es)
  case Nil
  then show ?case by simp
next
  case (Cons kv es)
  obtain k0 v0 where kv: "kv = (k0, v0)" by (cases kv)
  show ?case
  proof (cases "(k, v) = (k0, v0)")
    case True
    with Cons.prems(3) show ?thesis by (simp add: rv_MapIndex_def kv)
  next
    case False
    with Cons.prems(2) have mem: "(k, v) \<in> set es" by (auto simp: kv)
    then have "k \<in> set (map fst es)" by force
    with Cons.prems(1) have "\<not> go_eq k0 k" by (auto simp: kv)
    moreover from Cons.prems(1) have "keys_differ (map fst es)" by (simp add: kv)
    ultimately show ?thesis
      using Cons.IH [OF _ mem Cons.prems(3)] by (simp add: rv_MapIndex_def kv)
  qed
qed

lemma MapIndex_missing: "\<not> go_eq k k \<Longrightarrow> rv_MapIndex es k = VInvalid"
proof -
  assume "\<not> go_eq k k"
  then have "\<not> go_eq k' k" for k' using go_eq_right(1) by blast
  then have "find (\<lambda>(k', v). go_eq k' k) es = None"
    by (auto simp: find_None_iff)
  then show ?thesis by (simp add: rv_MapIndex_def)
qed

lemma seqE_Inl:
  "x \<in> set xs \<Longrightarrow> f x = Inl err \<Longrightarrow> \<exists>err'. seqE (map f xs) = Inl err'"
proof (induction xs)
  case Nil
  then show ?case by simp
next
  case (Cons y ys)
  show ?case
  proof (cases "f y")
    case (Inl e1)
    then show ?thesis by simp
  next
    case (Inr evs)
    with Cons.prems have "x \<in> set ys" by auto
    from Cons.IH [OF this Cons.prems(2)] Inr show ?thesis by auto
  qed
qed

lemma encodeValue_Invalid:
  "encodeValue P E VInvalid = Inl (ReflectPanic ''reflect: call of reflect.Value.Type on zero Value'')"
  by (simp add: encodeValue.simps)




subsection \<open>Struct fields and omit-empty\<close>

lemma encStruct_collect_kept:
  "map (\<lambda>si. resolve_field si rv) sis = map Inr vals \<Longrightarrow>
   n0 + length sis \<le> length rvals0 \<Longrightarrow> length names0 = length rvals0 \<Longrightarrow>
   \<exists>rvals names.
     encStruct_collect P sis rv (rvals0, names0, n0)
       = Inr (rvals, names, n0 + length (kept_fields P sis vals))
     \<and> length rvals = length rvals0 \<and> length names = length names0
     \<and> (\<forall>j<n0. rvals ! j = rvals0 ! j \<and> names ! j = names0 ! j)
     \<and> (\<forall>j<length (kept_fields P sis vals).
           rvals ! (n0 + j) = snd (kept_fields P sis vals ! j)
           \<and> names ! (n0 + j) = encName (fst (kept_fields P sis vals ! j)))"
proof (induction sis arbitrary: vals rvals0 names0 n0)
  case Nil
  then show ?case by (simp add: kept_fields_def)
next
  case (Cons si sis)
  from Cons.prems(1) obtain v vals' where vals: "vals = v # vals'"
    and v: "resolve_field si rv = Inr v"
    and rest: "map (\<lambda>si. resolve_field si rv) sis = map Inr vals'"
    by (cases vals) auto
  have lt: "n0 < length rvals0" "n0 < length names0"
    using Cons.prems(2,3) by simp_all
  show ?case
  proof (cases "omitEmpty si \<and> isEmptyValue P v")
    case True
    then have k: "kept_fields P (si # sis) vals = kept_fields P sis vals'"
      by (simp add: kept_fields_def vals)
    have "n0 + length sis \<le> length (rvals0[n0 := v])" "length names0 = length (rvals0[n0 := v])"
      using Cons.prems(2,3) by simp_all
    from Cons.IH [OF rest this] obtain rvals names where
      r: "encStruct_collect P sis rv (rvals0[n0 := v], names0, n0)
            = Inr (rvals, names, n0 + length (kept_fields P sis vals'))"
         "length rvals = length (rvals0[n0 := v])" "length names = length names0"
         "\<forall>j<n0. rvals ! j = rvals0[n0 := v] ! j \<and> names ! j = names0 ! j"
         "\<forall>j<length (kept_fields P sis vals').
            rvals ! (n0 + j) = snd (kept_fields P sis vals' ! j)
            \<and> names ! (n0 + j) = encName (fst (kept_fields P sis vals' ! j))"
      by blast
    have "encStruct_collect P (si # sis) rv (rvals0, names0, n0)
            = Inr (rvals, names, n0 + length (kept_fields P (si # sis) vals))"
      using True v r(1) k by simp
    moreover have "\<forall>j<n0. rvals ! j = rvals0 ! j \<and> names ! j = names0 ! j"
      using r(4) by simp
    ultimately show ?thesis
      using r(2,3,5) k by auto
  next
    case False
    then have k: "kept_fields P (si # sis) vals = (si, v) # kept_fields P sis vals'"
      by (auto simp: kept_fields_def vals)
    have "n0 + 1 + length sis \<le> length (rvals0[n0 := v])"
         "length (names0[n0 := encName si]) = length (rvals0[n0 := v])"
      using Cons.prems(2,3) by simp_all
    from Cons.IH [OF rest this] obtain rvals names where
      r: "encStruct_collect P sis rv (rvals0[n0 := v], names0[n0 := encName si], n0 + 1)
            = Inr (rvals, names, n0 + 1 + length (kept_fields P sis vals'))"
         "length rvals = length (rvals0[n0 := v])"
         "length names = length (names0[n0 := encName si])"
         "\<forall>j<n0 + 1. rvals ! j = rvals0[n0 := v] ! j \<and> names ! j = names0[n0 := encName si] ! j"
         "\<forall>j<length (kept_fields P sis vals').
            rvals ! (n0 + 1 + j) = snd (kept_fields P sis vals' ! j)
            \<and> names ! (n0 + 1 + j) = encName (fst (kept_fields P sis vals' ! j))"
      by blast
    have 1: "encStruct_collect P (si # sis) rv (rvals0, names0, n0)
            = Inr (rvals, names, n0 + length (kept_fields P (si # sis) vals))"
      using False v r(1) k by auto
    have 2: "\<forall>j<n0. rvals ! j = rvals0 ! j \<and> names ! j = names0 ! j"
      using r(4) by simp
    have at: "rvals ! n0 = v \<and> names ! n0 = encName si"
      using r(4) lt by simp
    have 3: "rvals ! (n0 + j) = snd (kept_fields P (si # sis) vals ! j)
             \<and> names ! (n0 + j) = encName (fst (kept_fields P (si # sis) vals ! j))"
      if "j < length (kept_fields P (si # sis) vals)" for j
    proof (cases j)
      case 0
      then show ?thesis using at k by simp
    next
      case (Suc j')
      with that k have "j' < length (kept_fields P sis vals')" by simp
      with r(5) have "rvals ! (n0 + 1 + j') = snd (kept_fields P sis vals' ! j')
            \<and> names ! (n0 + 1 + j') = encName (fst (kept_fields P sis vals' ! j'))"
        by blast
      then show ?thesis using Suc k by simp
    qed
    from 1 2 3 r(2,3) show ?thesis by auto
  qed
qed

text \<open>C5. When every descriptor of the struct resolves to a field value and every kept
  value encodes, \<^verbatim>\<open>encStruct\<close> yields the map preamble with the number of kept fields,
  then for each kept field, in the order of the descriptors, its name as a symbol followed
  by the events of its value. A field is left out exactly when its descriptor has the
  omit-empty flag and its value is empty; a field without the flag is always kept.\<close>

theorem encStruct_omit_empty:
  assumes res: "map (\<lambda>si. resolve_field si rv) (getStructFieldInfos P t) = map Inr vals"
    and enc: "\<forall>(si, v) \<in> set (kept_fields P (getStructFieldInfos P t) vals).
                encodeValue P E v = Inr (ev v)"
  shows "encStruct P E t rv =
           Inr (EncodeMapPreamble (length (kept_fields P (getStructFieldInfos P t) vals))
                # concat (map (\<lambda>(si, v). EncodeSymbol (encName si) # ev v)
                           (kept_fields P (getStructFieldInfos P t) vals)))"
proof -
  let ?sis = "getStructFieldInfos P t"
  let ?kept = "kept_fields P ?sis vals"
  let ?n = "length ?sis"
  from encStruct_collect_kept [OF res, of 0 "replicate ?n VInvalid" "replicate ?n []" P]
  obtain rvals names where
    c: "encStruct_collect P ?sis rv (replicate ?n VInvalid, replicate ?n [], 0)
          = Inr (rvals, names, length ?kept)"
    and nth: "\<forall>j<length ?kept. rvals ! j = snd (?kept ! j) \<and> names ! j = encName (fst (?kept ! j))"
    by auto
  let ?f = "\<lambda>j. bindE (encodeValue P E (rvals ! j)) (\<lambda>evs. Inr (EncodeSymbol (names ! j) # evs))"
  let ?g = "\<lambda>j. EncodeSymbol (encName (fst (?kept ! j))) # ev (snd (?kept ! j))"
  have "\<forall>j \<in> set [0..<length ?kept]. ?f j = Inr (?g j)"
  proof
    fix j assume "j \<in> set [0..<length ?kept]"
    then have j: "j < length ?kept" by simp
    then have "?kept ! j \<in> set ?kept" by simp
    with enc have "encodeValue P E (snd (?kept ! j)) = Inr (ev (snd (?kept ! j)))"
      by (auto simp: case_prod_beta)
    with nth j show "?f j = Inr (?g j)" by simp
  qed
  then have "seqE (map ?f [0..<length ?kept]) = Inr (concat (map ?g [0..<length ?kept]))"
    by (rule seqE_all_Inr)
  moreover have "map ?g [0..<length ?kept] = map (\<lambda>(si, v). EncodeSymbol (encName si) # ev v) ?kept"
    by (rule nth_equalityI) (simp_all add: case_prod_beta)
  ultimately show ?thesis
    using c by (simp add: encStruct.simps)
qed

theorem encStruct_omit_empty_witness:
  "map (\<lambda>si. resolve_field si (VStruct (StructType ''S'') struct_fields))
       (getStructFieldInfos deps_struct (StructType ''S'')) = map Inr struct_fields
   \<and> kept_fields deps_struct sis_example struct_fields
       = [(sis_example ! 0, struct_fields ! 0), (sis_example ! 2, struct_fields ! 2)]
   \<and> encStruct deps_struct Encoder_plain (StructType ''S'') (VStruct (StructType ''S'') struct_fields)
       = Inr [EncodeMapPreamble 2, EncodeSymbol ''A'', EncodeInt 0,
              EncodeSymbol ''C'', EncodeBool True]"
proof -
  let ?P = deps_struct and ?E = Encoder_plain
  let ?ev = "\<lambda>v. case v of VScalar t s \<Rightarrow> [encode_scalar_kind s] | _ \<Rightarrow> []"
  have g: "getStructFieldInfos ?P (StructType ''S'') = sis_example"
    by (simp add: deps_struct_def)
  have r: "map (\<lambda>si. resolve_field si (VStruct (StructType ''S'') struct_fields))
       (getStructFieldInfos ?P (StructType ''S'')) = map Inr struct_fields"
    by (simp add: g sis_example_def struct_fields_def resolve_field_def rv_FieldByIndex_def)
  have k: "kept_fields ?P sis_example struct_fields
       = [(sis_example ! 0, struct_fields ! 0), (sis_example ! 2, struct_fields ! 2)]"
    by (simp add: kept_fields_def sis_example_def struct_fields_def deps_struct_def deps_example_def)
  have e: "\<forall>(si, v) \<in> set (kept_fields ?P (getStructFieldInfos ?P (StructType ''S'')) struct_fields).
             encodeValue ?P ?E v = Inr (?ev v)"
    unfolding g k by (simp add: struct_fields_def Encoder_plain_scalar)
  have "encStruct ?P ?E (StructType ''S'') (VStruct (StructType ''S'') struct_fields)
       = Inr [EncodeMapPreamble 2, EncodeSymbol ''A'', EncodeInt 0,
              EncodeSymbol ''C'', EncodeBool True]"
    using encStruct_omit_empty [OF r e] unfolding g k
    by (simp add: sis_example_def struct_fields_def)
  with r k show ?thesis by blast
qed

end
